theory Spec2Isabelle
  imports Main
begin

section \<open>Data model\<close>

text \<open>
  A promise is addressed by its position in the heap (the pointer \<open>*Promise[T]\<close>), a
  handler closure supplied by the caller of the package is named by a number; its body is
  opaque. An \<open>error\<close> is represented by its message, the string that \<open>Error()\<close> returns.
\<close>

type_synonym pid = nat
type_synonym hid = nat
type_synonym fid = nat
type_synonym error = string

text \<open>\<open>PromiseResult[T]\<close> of static.go.\<close>

datatype 'a PromiseResult =
  PromiseResult (Value: 'a) (Error: "error option") (Fulfilled: bool)

text \<open>
  The values that promises carry. The functions of the package are generic in \<open>T\<close>, and a
  combinator applied to promises of \<open>T\<close> returns a promise of \<open>T\<close>, of \<open>[]T\<close> or of
  \<open>[]PromiseResult[T]\<close>, which may itself be passed to a combinator: a value is a value of
  the base type, a slice of values or a \<open>PromiseResult\<close> of a value. A slice value stands for
  the contents of the slice when it is passed; a nil slice and an empty slice are both
  \<open>Slice []\<close>. The type argument of a call is a \<open>ty\<close>; the code uses of it only its zero
  value (\<open>make\<close>, and the field \<open>Value\<close> that a composite literal leaves out).
\<close>

datatype 'a val =
    One 'a
  | Slice "'a val list"
  | Result "'a val PromiseResult"

datatype ty = Base | SliceOf ty | ResultOf ty

fun zero_of :: "ty \<Rightarrow> ('a::zero) val" where
  "zero_of Base = One 0"
| "zero_of (SliceOf t) = Slice []"
| "zero_of (ResultOf t) = Result (PromiseResult (zero_of t) None False)"

text \<open>
  The function values that the code stores in the slots \<open>then\<close> and \<open>catch\<close> of a promise.
  Every function literal of the package that is assigned to a slot has a constructor:
  the two wrappers that \<open>Finally\<close> builds (one around an old observer, one without) and the
  closures that the four combinators register. A closure of a combinator captures the
  local variables of the executor that made it, named by the \<open>fid\<close> of that activation of
  the executor, and the loop index it uses.
\<close>

datatype then_fn =
    UserThen hid
  | WrapThen then_fn hid
  | OnlyFinallyThen hid
  | AllThen fid nat
  | RaceThen fid
  | AllSettledThen fid nat
  | AnyThen fid

datatype catch_fn =
    UserCatch hid
  | WrapCatch catch_fn hid
  | OnlyFinallyCatch hid
  | AllCatch fid
  | RaceCatch fid
  | AllSettledCatch fid nat
  | AnyCatch fid nat

text \<open>The struct \<open>Promise[T]\<close>; the mutex is the atomicity of the steps below.\<close>

record promise =
  then_f :: "then_fn option"
  catch_f :: "catch_fn option"
  finally_f :: "hid option"

text \<open>
  A goroutine is the list of the atomic steps it still has to take. A step is atomic when
  it is a critical section of one mutex, or touches nothing shared.
\<close>

datatype 'a op =
    InvokeThen pid "'a val"
  | InvokeCatch pid error
  | InvokeFinally pid
  | WgDone
  | CallResolve pid "'a val"
  | CallReject pid error
  | ThenReg pid then_fn
  | CatchReg pid catch_fn
  | AllThenBody fid nat "'a val"
  | AllCatchBody fid error
  | ResolveResults fid
  | RaceThenBody fid "'a val"
  | RaceCatchBody fid error
  | AllSettledThenBody fid nat "'a val"
  | AllSettledCatchBody fid nat error
  | ResolveSettled fid
  | AnyThenBody fid "'a val"
  | AnyCatchBody fid nat error
  | RejectAggregate fid

text \<open>
  What can be observed of a run. \<open>Resolved p v b\<close>: the \<open>resolve\<close> closure of promise \<open>p\<close>
  was called with \<open>v\<close>, and \<open>b\<close> tells whether it launched the observer goroutine;
  \<open>ThenCalled p f v\<close>: a goroutine evaluated \<open>p.then(value)\<close> and so called \<open>f\<close>;
  \<open>Critical x\<close>: a goroutine went through the critical section \<open>x\<close> of a combinator's
  closure.
\<close>

datatype 'a event =
    Resolved pid "'a val" bool
  | Rejected pid error bool
  | Finalized pid bool
  | ThenCalled pid then_fn "'a val"
  | CatchCalled pid catch_fn error
  | FinallyCalled pid hid
  | Critical "'a op"

datatype combinator = KAll | KRace | KAllSettled | KAny

text \<open>
  The local variables of one activation of the executor of a combinator: which
  combinator it is and its type argument, the promise the call returns (whose \<open>resolve\<close>
  and \<open>reject\<close> the executor holds), the argument \<open>promises\<close>, and the variables the
  closures share under the mutex \<open>mu\<close>: \<open>results\<close> and \<open>remaining\<close> for \<open>All\<close> and
  \<open>AllSettled\<close>, \<open>settled\<close> for \<open>Race\<close>, \<open>remaining\<close> and \<open>errors\<close> for \<open>Any\<close>. Go's \<open>int\<close>
  is modelled by \<open>int\<close>: \<open>remaining\<close> moves by one per observer call, far from the end of
  the 64-bit range.
\<close>

record 'a frame =
  kind :: combinator
  elem :: ty
  target :: pid
  inputs :: "pid list"
  results :: "'a val list"
  errors :: "error option list"
  remaining :: int
  settled :: bool

text \<open>
  The whole program state: the promises, the package variable \<open>wg\<close> of sync.go (the counter
  of the \<open>sync.WaitGroup\<close>), the goroutines, and the activations of the executors of the
  combinators, in the order of the calls.
\<close>

record 'a world =
  heap :: "promise list"
  wg :: int
  pool :: "'a op list list"
  frames :: "'a frame list"
  events :: "'a event list"

datatype fault =
    NegativeWaitGroup
  | NilFunc
  | NoSuchPromise
  | NoSuchGoroutine
  | NotAvailable

definition init :: "'a world" where
  "init = \<lparr>heap = [], wg = 0, pool = [], frames = [], events = []\<rparr>"

section \<open>The promise (promise.go)\<close>

definition spawn :: "'a op list \<Rightarrow> 'a world \<Rightarrow> 'a world" where
  "spawn g w = w\<lparr>pool := pool w @ [g]\<rparr>"

definition emit :: "'a event \<Rightarrow> 'a world \<Rightarrow> 'a world" where
  "emit e w = w\<lparr>events := events w @ [e]\<rparr>"

text \<open>
  \<open>NewPromise\<close>: allocate the promise, \<open>wg.Add(1)\<close>, start the executor as a goroutine and
  return the pointer. The executor is given as the steps it takes, as a function of the
  promise whose \<open>resolve\<close>, \<open>reject\<close> and \<open>finally\<close> it receives. The executor of a caller
  is not known: its calls of the three closures are actions of the environment.
\<close>

definition NewPromise :: "(pid \<Rightarrow> 'a op list) \<Rightarrow> 'a world \<Rightarrow> pid \<times> 'a world" where
  "NewPromise executor w =
     (let p = length (heap w);
          w1 = w\<lparr>heap := heap w @ [\<lparr>then_f = None, catch_f = None, finally_f = None\<rparr>]\<rparr>;
          w2 = w1\<lparr>wg := wg w1 + 1\<rparr>
      in (p, spawn (executor p) w2))"

text \<open>The closures \<open>resolve\<close>, \<open>reject\<close> and \<open>finally\<close> that \<open>NewPromise\<close> builds.\<close>

definition resolve :: "pid \<Rightarrow> 'a val \<Rightarrow> 'a world \<Rightarrow> 'a world" where
  "resolve p v w =
     (if then_f (heap w ! p) \<noteq> None
      then spawn [InvokeThen p v, WgDone] (emit (Resolved p v True) w)
      else emit (Resolved p v False) w)"

definition reject :: "pid \<Rightarrow> error \<Rightarrow> 'a world \<Rightarrow> 'a world" where
  "reject p e w =
     (if catch_f (heap w ! p) \<noteq> None
      then spawn [InvokeCatch p e, WgDone] (emit (Rejected p e True) w)
      else emit (Rejected p e False) w)"

definition finally_fn :: "pid \<Rightarrow> 'a world \<Rightarrow> 'a world" where
  "finally_fn p w =
     (if finally_f (heap w ! p) \<noteq> None
      then spawn [InvokeFinally p, WgDone] (emit (Finalized p True) w)
      else emit (Finalized p False) w)"

text \<open>The methods \<open>Then\<close>, \<open>Catch\<close> and \<open>Finally\<close>; the first two return their receiver.\<close>

definition Then :: "pid \<Rightarrow> then_fn \<Rightarrow> 'a world \<Rightarrow> pid \<times> 'a world" where
  "Then p handler w = (p, w\<lparr>heap := (heap w)[p := (heap w ! p)\<lparr>then_f := Some handler\<rparr>]\<rparr>)"

definition Catch :: "pid \<Rightarrow> catch_fn \<Rightarrow> 'a world \<Rightarrow> pid \<times> 'a world" where
  "Catch p handler w = (p, w\<lparr>heap := (heap w)[p := (heap w ! p)\<lparr>catch_f := Some handler\<rparr>]\<rparr>)"

definition Finally :: "pid \<Rightarrow> hid \<Rightarrow> 'a world \<Rightarrow> 'a world" where
  "Finally p handler w =
     (let oldThen = then_f (heap w ! p);
          oldCatch = catch_f (heap w ! p);
          newThen = (case oldThen of Some f \<Rightarrow> WrapThen f handler
                     | None \<Rightarrow> OnlyFinallyThen handler);
          newCatch = (case oldCatch of Some f \<Rightarrow> WrapCatch f handler
                      | None \<Rightarrow> OnlyFinallyCatch handler)
      in w\<lparr>heap := (heap w)[p := (heap w ! p)\<lparr>then_f := Some newThen, catch_f := Some newCatch\<rparr>]\<rparr>)"


section \<open>Calling a stored function value\<close>

text \<open>
  The steps a call of a stored function value takes. The body of a caller's handler is
  opaque and contributes no step; a wrapper of \<open>Finally\<close> calls the old observer and then
  the caller's handler; a closure of a combinator is one critical section of the mutex
  \<open>mu\<close> of its activation (which may go on to call \<open>resolve\<close> or \<open>reject\<close> of the target,
  see below).
\<close>

fun body_then :: "then_fn \<Rightarrow> 'a val \<Rightarrow> 'a op list" where
  "body_then (UserThen h) v = []"
| "body_then (WrapThen f h) v = body_then f v"
| "body_then (OnlyFinallyThen h) v = []"
| "body_then (AllThen c idx) v = [AllThenBody c idx v]"
| "body_then (RaceThen c) v = [RaceThenBody c v]"
| "body_then (AllSettledThen c idx) v = [AllSettledThenBody c idx v]"
| "body_then (AnyThen c) v = [AnyThenBody c v]"

fun body_catch :: "catch_fn \<Rightarrow> error \<Rightarrow> 'a op list" where
  "body_catch (UserCatch h) e = []"
| "body_catch (WrapCatch f h) e = body_catch f e"
| "body_catch (OnlyFinallyCatch h) e = []"
| "body_catch (AllCatch c) e = [AllCatchBody c e]"
| "body_catch (RaceCatch c) e = [RaceCatchBody c e]"
| "body_catch (AllSettledCatch c idx) e = [AllSettledCatchBody c idx e]"
| "body_catch (AnyCatch c idx) e = [AnyCatchBody c idx e]"

text \<open>The caller's handlers that a call of a stored function value runs.\<close>

fun then_runs :: "then_fn \<Rightarrow> hid list" where
  "then_runs (UserThen h) = [h]"
| "then_runs (WrapThen f h) = then_runs f"
| "then_runs _ = []"

fun then_runs_finally :: "then_fn \<Rightarrow> hid list" where
  "then_runs_finally (WrapThen f h) = then_runs_finally f @ [h]"
| "then_runs_finally (OnlyFinallyThen h) = [h]"
| "then_runs_finally _ = []"

fun catch_runs :: "catch_fn \<Rightarrow> hid list" where
  "catch_runs (UserCatch h) = [h]"
| "catch_runs (WrapCatch f h) = catch_runs f"
| "catch_runs _ = []"

fun catch_runs_finally :: "catch_fn \<Rightarrow> hid list" where
  "catch_runs_finally (WrapCatch f h) = catch_runs_finally f @ [h]"
| "catch_runs_finally (OnlyFinallyCatch h) = [h]"
| "catch_runs_finally _ = []"

section \<open>The combinators (static.go)\<close>

text \<open>
  \<open>fmt.Errorf("all promises rejected: %v", errors)\<close>: \<open>%v\<close> prints a slice in brackets,
  its elements separated by a space, an error by its message and a nil error as \<open><nil>\<close>.
\<close>

fun join_space :: "string list \<Rightarrow> string" where
  "join_space [] = []"
| "join_space [s] = s"
| "join_space (s # t # ss) = s @ '' '' @ join_space (t # ss)"

definition show_error :: "error option \<Rightarrow> string" where
  "show_error e = (case e of None \<Rightarrow> ''<nil>'' | Some m \<Rightarrow> m)"

definition aggregate_error :: "error option list \<Rightarrow> error" where
  "aggregate_error es = ''all promises rejected: ['' @ join_space (map show_error es) @ '']''"

text \<open>
  The loop \<open>for i, p := range promises\<close> of each executor: \<open>p.Then(...).Catch(...)\<close> with
  the closures of index \<open>i\<close>.
\<close>

fun register :: "(nat \<Rightarrow> then_fn) \<Rightarrow> (nat \<Rightarrow> catch_fn) \<Rightarrow> nat \<Rightarrow> pid list \<Rightarrow> 'a op list" where
  "register t c i [] = []"
| "register t c i (p # ps) = ThenReg p (t i) # CatchReg p (c i) # register t c (Suc i) ps"

definition All_executor :: "fid \<Rightarrow> pid list \<Rightarrow> pid \<Rightarrow> 'a op list" where
  "All_executor c promises t =
     (if length promises = 0 then [CallResolve t (Slice [])]
      else register (AllThen c) (\<lambda>i. AllCatch c) 0 promises)"

definition Race_executor :: "fid \<Rightarrow> pid list \<Rightarrow> pid \<Rightarrow> 'a op list" where
  "Race_executor c promises t =
     (if length promises = 0 then [CallReject t ''no promises to race'']
      else register (\<lambda>i. RaceThen c) (\<lambda>i. RaceCatch c) 0 promises)"

definition AllSettled_executor :: "fid \<Rightarrow> pid list \<Rightarrow> pid \<Rightarrow> 'a op list" where
  "AllSettled_executor c promises t =
     (if length promises = 0 then [CallResolve t (Slice [])]
      else register (AllSettledThen c) (AllSettledCatch c) 0 promises)"

definition Any_executor :: "fid \<Rightarrow> pid list \<Rightarrow> pid \<Rightarrow> 'a op list" where
  "Any_executor c promises t =
     (if length promises = 0 then [CallReject t ''all promises rejected'']
      else register (\<lambda>i. AnyThen c) (AnyCatch c) 0 promises)"

fun executor_of :: "combinator \<Rightarrow> fid \<Rightarrow> pid list \<Rightarrow> pid \<Rightarrow> 'a op list" where
  "executor_of KAll = All_executor"
| "executor_of KRace = Race_executor"
| "executor_of KAllSettled = AllSettled_executor"
| "executor_of KAny = Any_executor"

text \<open>
  The variables an executor declares before its loop (\<open>make\<close> fills a slice with the zero
  value of its element type). They are set when the call is made: nothing but the
  executor can reach them before its first registration. A variable that a combinator
  does not declare is never read by its closures.
\<close>

definition locals :: "combinator \<Rightarrow> ty \<Rightarrow> pid list \<Rightarrow> pid \<Rightarrow> ('a::zero) frame" where
  "locals c T promises t =
     \<lparr>kind = c, elem = T, target = t, inputs = promises,
      results = (case c of
          KAll \<Rightarrow> replicate (length promises) (zero_of T)
        | KAllSettled \<Rightarrow> replicate (length promises) (zero_of (ResultOf T))
        | _ \<Rightarrow> []),
      errors = (case c of KAny \<Rightarrow> replicate (length promises) None | _ \<Rightarrow> []),
      remaining = int (length promises),
      settled = False\<rparr>"

text \<open>
  A combinator is \<open>NewPromise\<close> of its executor, on promises that exist; every call has
  its own activation of the executor.
\<close>

definition combinator ::
  "combinator \<Rightarrow> ty \<Rightarrow> pid list \<Rightarrow> ('a::zero) world \<Rightarrow> fault + 'a world" where
  "combinator c T promises w =
     (if \<not> list_all (\<lambda>p. p < length (heap w)) promises then Inl NoSuchPromise
      else Inr (snd (NewPromise (executor_of c (length (frames w)) promises)
                  (w\<lparr>frames := frames w @ [locals c T promises (length (heap w))]\<rparr>))))"

section \<open>Steps of a goroutine\<close>

text \<open>
  \<open>push k g w\<close>: goroutine \<open>k\<close> goes on with the steps \<open>g\<close> before what it had left.
  \<open>vars c w\<close> reads the variables of activation \<open>c\<close>, \<open>assign c f w\<close> writes them.
\<close>

definition push :: "nat \<Rightarrow> 'a op list \<Rightarrow> 'a world \<Rightarrow> 'a world" where
  "push k g w = w\<lparr>pool := (pool w)[k := g @ pool w ! k]\<rparr>"

definition vars :: "fid \<Rightarrow> 'a world \<Rightarrow> 'a frame" where
  "vars c w = frames w ! c"

definition assign :: "fid \<Rightarrow> ('a frame \<Rightarrow> 'a frame) \<Rightarrow> 'a world \<Rightarrow> 'a world" where
  "assign c f w = w\<lparr>frames := (frames w)[c := f (frames w ! c)]\<rparr>"

text \<open>
  One step of goroutine \<open>k\<close>. \<open>InvokeThen\<close> is the call \<open>p.then(value)\<close> of the goroutine
  that \<open>resolve\<close> launched: it reads the slot when it runs. \<open>WgDone\<close> is \<open>wg.Done()\<close>, which
  panics when the counter would become negative. The bodies of the combinators' closures
  are their critical sections; the call of \<open>resolve\<close> or \<open>reject\<close> that follows
  \<open>mu.Unlock()\<close> is a later step, which reads the slice it passes when it runs. An index is
  always within the slice it is used on (the closures come from the loop over the inputs),
  and a closure names the activation that made it.
\<close>

fun exec :: "nat \<Rightarrow> ('a::zero) op \<Rightarrow> 'a world \<Rightarrow> fault + 'a world" where
  "exec k (InvokeThen p v) w =
     (case then_f (heap w ! p) of
        None \<Rightarrow> Inl NilFunc
      | Some f \<Rightarrow> Inr (push k (body_then f v) (emit (ThenCalled p f v) w)))"
| "exec k (InvokeCatch p e) w =
     (case catch_f (heap w ! p) of
        None \<Rightarrow> Inl NilFunc
      | Some f \<Rightarrow> Inr (push k (body_catch f e) (emit (CatchCalled p f e) w)))"
| "exec k (InvokeFinally p) w =
     (case finally_f (heap w ! p) of
        None \<Rightarrow> Inl NilFunc
      | Some h \<Rightarrow> Inr (emit (FinallyCalled p h) w))"
| "exec k WgDone w =
     (if wg w - 1 < 0 then Inl NegativeWaitGroup else Inr (w\<lparr>wg := wg w - 1\<rparr>))"
| "exec k (CallResolve p v) w = Inr (resolve p v w)"
| "exec k (CallReject p e) w = Inr (reject p e w)"
| "exec k (ThenReg p f) w = Inr (snd (Then p f w))"
| "exec k (CatchReg p f) w = Inr (snd (Catch p f w))"
| "exec k (AllThenBody c idx val) w =
     (let w0 = emit (Critical (AllThenBody c idx val)) w;
          w1 = assign c (\<lambda>f. f\<lparr>results := (results f)[idx := val]\<rparr>) w0;
          w2 = assign c (\<lambda>f. f\<lparr>remaining := remaining f - 1\<rparr>) w1
      in if remaining (vars c w2) = 0 then Inr (push k [ResolveResults c] w2) else Inr w2)"
| "exec k (AllCatchBody c err) w =
     (let w0 = emit (Critical (AllCatchBody c err)) w
      in if remaining (vars c w0) > 0
         then Inr (push k [CallReject (target (vars c w0)) err]
                    (assign c (\<lambda>f. f\<lparr>remaining := 0\<rparr>) w0))
         else Inr w0)"
| "exec k (ResolveResults c) w =
     Inr (resolve (target (vars c w)) (Slice (results (vars c w))) w)"
| "exec k (RaceThenBody c val) w =
     (let w0 = emit (Critical (RaceThenBody c val)) w
      in if \<not> settled (vars c w0)
         then Inr (push k [CallResolve (target (vars c w0)) val]
                    (assign c (\<lambda>f. f\<lparr>settled := True\<rparr>) w0))
         else Inr w0)"
| "exec k (RaceCatchBody c err) w =
     (let w0 = emit (Critical (RaceCatchBody c err)) w
      in if \<not> settled (vars c w0)
         then Inr (push k [CallReject (target (vars c w0)) err]
                    (assign c (\<lambda>f. f\<lparr>settled := True\<rparr>) w0))
         else Inr w0)"
| "exec k (AllSettledThenBody c idx val) w =
     (let w0 = emit (Critical (AllSettledThenBody c idx val)) w;
          w1 = assign c (\<lambda>f. f\<lparr>results :=
                 (results f)[idx := Result (PromiseResult val None True)]\<rparr>) w0;
          w2 = assign c (\<lambda>f. f\<lparr>remaining := remaining f - 1\<rparr>) w1
      in if remaining (vars c w2) = 0 then Inr (push k [ResolveSettled c] w2) else Inr w2)"
| "exec k (AllSettledCatchBody c idx err) w =
     (let w0 = emit (Critical (AllSettledCatchBody c idx err)) w;
          w1 = assign c (\<lambda>f. f\<lparr>results :=
                 (results f)[idx := Result (PromiseResult (zero_of (elem f)) (Some err) False)]\<rparr>) w0;
          w2 = assign c (\<lambda>f. f\<lparr>remaining := remaining f - 1\<rparr>) w1
      in if remaining (vars c w2) = 0 then Inr (push k [ResolveSettled c] w2) else Inr w2)"
| "exec k (ResolveSettled c) w =
     Inr (resolve (target (vars c w)) (Slice (results (vars c w))) w)"
| "exec k (AnyThenBody c val) w =
     (let w0 = emit (Critical (AnyThenBody c val)) w
      in if remaining (vars c w0) > 0
         then Inr (push k [CallResolve (target (vars c w0)) val]
                    (assign c (\<lambda>f. f\<lparr>remaining := 0\<rparr>) w0))
         else Inr w0)"
| "exec k (AnyCatchBody c idx err) w =
     (let w0 = emit (Critical (AnyCatchBody c idx err)) w;
          w1 = assign c (\<lambda>f. f\<lparr>errors := (errors f)[idx := Some err]\<rparr>) w0;
          w2 = assign c (\<lambda>f. f\<lparr>remaining := remaining f - 1\<rparr>) w1
      in if remaining (vars c w2) = 0 then Inr (push k [RejectAggregate c] w2) else Inr w2)"
| "exec k (RejectAggregate c) w =
     Inr (reject (target (vars c w)) (aggregate_error (errors (vars c w))) w)"

definition sched :: "nat \<Rightarrow> ('a::zero) world \<Rightarrow> fault + 'a world" where
  "sched k w =
     (if \<not> k < length (pool w) then Inl NoSuchGoroutine
      else case pool w ! k of
             [] \<Rightarrow> Inl NoSuchGoroutine
           | x # g \<Rightarrow> exec k x (w\<lparr>pool := (pool w)[k := g]\<rparr>))"

section \<open>Runs\<close>

text \<open>
  What can happen next: the caller makes a promise, registers a handler or calls a
  combinator (with its type argument); the executor of a caller's promise calls one of
  its three closures; the scheduler lets a goroutine take a step. The caller's executor
  holds the closures of its own promise only, so none calls those of the promise that a
  combinator returns.
\<close>

datatype 'a action =
    CallNewPromise
  | ExecResolve pid "'a val"
  | ExecReject pid error
  | ExecFinally pid
  | CallThen pid hid
  | CallCatch pid hid
  | CallFinally pid hid
  | CallAll ty "pid list"
  | CallRace ty "pid list"
  | CallAllSettled ty "pid list"
  | CallAny ty "pid list"
  | Sched nat

definition own :: "pid \<Rightarrow> 'a world \<Rightarrow> fault + unit" where
  "own p w =
     (if \<not> p < length (heap w) then Inl NoSuchPromise
      else if p \<in> set (map target (frames w)) then Inl NotAvailable
      else Inr ())"

definition exists :: "pid \<Rightarrow> 'a world \<Rightarrow> fault + unit" where
  "exists p w = (if \<not> p < length (heap w) then Inl NoSuchPromise else Inr ())"

fun step :: "('a::zero) action \<Rightarrow> 'a world \<Rightarrow> fault + 'a world" where
  "step CallNewPromise w = Inr (snd (NewPromise (\<lambda>p. []) w))"
| "step (ExecResolve p v) w =
     (case own p w of Inl x \<Rightarrow> Inl x | Inr _ \<Rightarrow> Inr (resolve p v w))"
| "step (ExecReject p e) w =
     (case own p w of Inl x \<Rightarrow> Inl x | Inr _ \<Rightarrow> Inr (reject p e w))"
| "step (ExecFinally p) w =
     (case own p w of Inl x \<Rightarrow> Inl x | Inr _ \<Rightarrow> Inr (finally_fn p w))"
| "step (CallThen p h) w =
     (case exists p w of Inl x \<Rightarrow> Inl x | Inr _ \<Rightarrow> Inr (snd (Then p (UserThen h) w)))"
| "step (CallCatch p h) w =
     (case exists p w of Inl x \<Rightarrow> Inl x | Inr _ \<Rightarrow> Inr (snd (Catch p (UserCatch h) w)))"
| "step (CallFinally p h) w =
     (case exists p w of Inl x \<Rightarrow> Inl x | Inr _ \<Rightarrow> Inr (Finally p h w))"
| "step (CallAll T ps) w = combinator KAll T ps w"
| "step (CallRace T ps) w = combinator KRace T ps w"
| "step (CallAllSettled T ps) w = combinator KAllSettled T ps w"
| "step (CallAny T ps) w = combinator KAny T ps w"
| "step (Sched k) w = sched k w"

fun run :: "('a::zero) action list \<Rightarrow> 'a world \<Rightarrow> fault + 'a world" where
  "run [] w = Inr w"
| "run (a # as) w = (case step a w of Inl x \<Rightarrow> Inl x | Inr w' \<Rightarrow> run as w')"

section \<open>Notions used in the proofs\<close>

definition ops :: "'a world \<Rightarrow> 'a op set" where
  "ops w = (\<Union>g\<in>set (pool w). set g)"

fun then_of :: "combinator \<Rightarrow> fid \<Rightarrow> nat \<Rightarrow> then_fn" where
  "then_of KAll c i = AllThen c i"
| "then_of KRace c i = RaceThen c"
| "then_of KAllSettled c i = AllSettledThen c i"
| "then_of KAny c i = AnyThen c"

fun catch_of :: "combinator \<Rightarrow> fid \<Rightarrow> nat \<Rightarrow> catch_fn" where
  "catch_of KAll c i = AllCatch c"
| "catch_of KRace c i = RaceCatch c"
| "catch_of KAllSettled c i = AllSettledCatch c i"
| "catch_of KAny c i = AnyCatch c i"

text \<open>
  A closure of activation \<open>c\<close>, registered on input \<open>p\<close>; \<open>is_kind w c k\<close>: \<open>c\<close> is an
  activation of the executor of combinator \<open>k\<close>.
\<close>

definition is_kind :: "'a world \<Rightarrow> fid \<Rightarrow> combinator \<Rightarrow> bool" where
  "is_kind w c k \<longleftrightarrow> c < length (frames w) \<and> kind (vars c w) = k"

definition reg_then :: "'a world \<Rightarrow> pid \<Rightarrow> then_fn \<Rightarrow> bool" where
  "reg_then w p f =
     (\<exists>c i. c < length (frames w) \<and> i < length (inputs (vars c w)) \<and>
        inputs (vars c w) ! i = p \<and> f = then_of (kind (vars c w)) c i)"

definition reg_catch :: "'a world \<Rightarrow> pid \<Rightarrow> catch_fn \<Rightarrow> bool" where
  "reg_catch w p f =
     (\<exists>c i. c < length (frames w) \<and> i < length (inputs (vars c w)) \<and>
        inputs (vars c w) ! i = p \<and> f = catch_of (kind (vars c w)) c i)"

fun then_ok :: "'a world \<Rightarrow> pid \<Rightarrow> then_fn \<Rightarrow> bool" where
  "then_ok w p (UserThen h) = True"
| "then_ok w p (WrapThen f h) = then_ok w p f"
| "then_ok w p (OnlyFinallyThen h) = True"
| "then_ok w p f = reg_then w p f"

fun catch_ok :: "'a world \<Rightarrow> pid \<Rightarrow> catch_fn \<Rightarrow> bool" where
  "catch_ok w p (UserCatch h) = True"
| "catch_ok w p (WrapCatch f h) = catch_ok w p f"
| "catch_ok w p (OnlyFinallyCatch h) = True"
| "catch_ok w p f = reg_catch w p f"

text \<open>The promises that combinators have returned.\<close>

definition targets :: "'a world \<Rightarrow> pid set" where
  "targets w = set (map target (frames w))"

fun op_ok :: "'a world \<Rightarrow> 'a op \<Rightarrow> bool" where
  "op_ok w (InvokeThen p v) = (p < length (heap w))"
| "op_ok w (InvokeCatch p e) = (p < length (heap w))"
| "op_ok w (InvokeFinally p) = False"
| "op_ok w WgDone = True"
| "op_ok w (CallResolve p v) = (p \<in> targets w \<and> p < length (heap w))"
| "op_ok w (CallReject p e) = (p \<in> targets w \<and> p < length (heap w))"
| "op_ok w (ThenReg p f) = reg_then w p f"
| "op_ok w (CatchReg p f) = reg_catch w p f"
| "op_ok w (AllThenBody c i x) = (is_kind w c KAll \<and> i < length (inputs (vars c w)))"
| "op_ok w (AllCatchBody c e) = is_kind w c KAll"
| "op_ok w (ResolveResults c) = is_kind w c KAll"
| "op_ok w (RaceThenBody c x) = is_kind w c KRace"
| "op_ok w (RaceCatchBody c e) = is_kind w c KRace"
| "op_ok w (AllSettledThenBody c i x) =
     (is_kind w c KAllSettled \<and> i < length (inputs (vars c w)))"
| "op_ok w (AllSettledCatchBody c i e) =
     (is_kind w c KAllSettled \<and> i < length (inputs (vars c w)))"
| "op_ok w (ResolveSettled c) = is_kind w c KAllSettled"
| "op_ok w (AnyThenBody c x) = is_kind w c KAny"
| "op_ok w (AnyCatchBody c i e) = (is_kind w c KAny \<and> i < length (inputs (vars c w)))"
| "op_ok w (RejectAggregate c) = is_kind w c KAny"

fun event_ok :: "'a world \<Rightarrow> 'a event \<Rightarrow> bool" where
  "event_ok w (Resolved p v b) = (p < length (heap w))"
| "event_ok w (Rejected p e b) = (p < length (heap w))"
| "event_ok w (Finalized p b) = (p < length (heap w) \<and> \<not> b)"
| "event_ok w (ThenCalled p f v) = (p < length (heap w))"
| "event_ok w (CatchCalled p f e) = (p < length (heap w))"
| "event_ok w (FinallyCalled p h) = False"
| "event_ok w (Critical x) = op_ok w x"

text \<open>What an activation never changes: its combinator, type argument, target and inputs.\<close>

definition sig :: "'a frame \<Rightarrow> combinator \<times> ty \<times> pid \<times> pid list" where
  "sig f = (kind f, elem f, target f, inputs f)"

definition ctx :: "'a world \<Rightarrow> nat \<times> (combinator \<times> ty \<times> pid \<times> pid list) list" where
  "ctx w = (length (heap w), map sig (frames w))"

definition grow :: "'a world \<Rightarrow> 'b world \<Rightarrow> bool" where
  "grow w w' \<longleftrightarrow> length (heap w) \<le> length (heap w') \<and>
     length (frames w) \<le> length (frames w') \<and>
     (\<forall>c<length (frames w). sig (vars c w') = sig (vars c w))"

definition slots_ok :: "'a world \<Rightarrow> bool" where
  "slots_ok w \<longleftrightarrow>
     (\<forall>p f. p < length (heap w) \<longrightarrow> then_f (heap w ! p) = Some f \<longrightarrow> then_ok w p f) \<and>
     (\<forall>p f. p < length (heap w) \<longrightarrow> catch_f (heap w ! p) = Some f \<longrightarrow> catch_ok w p f) \<and>
     (\<forall>p < length (heap w). finally_f (heap w ! p) = None)"

definition target_ok :: "'a world \<Rightarrow> bool" where
  "target_ok w \<longleftrightarrow>
     (\<forall>c<length (frames w). target (vars c w) < length (heap w) \<and>
        (\<forall>p\<in>set (inputs (vars c w)). p < target (vars c w)))"

definition well_formed :: "'a world \<Rightarrow> bool" where
  "well_formed w \<longleftrightarrow> (\<forall>x\<in>ops w. op_ok w x) \<and> (\<forall>e\<in>set (events w). event_ok w e) \<and>
     slots_ok w \<and> target_ok w"

fun registers_then :: "pid \<Rightarrow> 'a action \<Rightarrow> bool" where
  "registers_then p (CallThen q h) = (q = p)"
| "registers_then p (CallFinally q h) = (q = p)"
| "registers_then p (CallAll T ps) = (p \<in> set ps)"
| "registers_then p (CallRace T ps) = (p \<in> set ps)"
| "registers_then p (CallAllSettled T ps) = (p \<in> set ps)"
| "registers_then p (CallAny T ps) = (p \<in> set ps)"
| "registers_then p _ = False"

definition pinned :: "pid \<Rightarrow> then_fn \<Rightarrow> 'a world \<Rightarrow> bool" where
  "pinned p f w \<longleftrightarrow>
     p < length (heap w) \<and> then_f (heap w ! p) = Some f \<and> (\<forall>g. ThenReg p g \<notin> ops w)"

text \<open>How many pending steps of all goroutines satisfy \<open>P\<close>, and how many events do.\<close>

definition cnt :: "('a op \<Rightarrow> bool) \<Rightarrow> 'a op list list \<Rightarrow> nat" where
  "cnt P ps = length (filter P (concat ps))"

definition occ :: "('a event \<Rightarrow> bool) \<Rightarrow> 'a event list \<Rightarrow> nat" where
  "occ Q es = length (filter Q es)"

fun is_invoke_then :: "pid \<Rightarrow> 'a op \<Rightarrow> bool" where
  "is_invoke_then p (InvokeThen q v) = (q = p)"
| "is_invoke_then p _ = False"

fun is_invoke_catch :: "pid \<Rightarrow> 'a op \<Rightarrow> bool" where
  "is_invoke_catch p (InvokeCatch q e) = (q = p)"
| "is_invoke_catch p _ = False"

fun is_then_called :: "pid \<Rightarrow> 'a event \<Rightarrow> bool" where
  "is_then_called p (ThenCalled q f v) = (q = p)"
| "is_then_called p _ = False"

fun is_catch_called :: "pid \<Rightarrow> 'a event \<Rightarrow> bool" where
  "is_catch_called p (CatchCalled q f e) = (q = p)"
| "is_catch_called p _ = False"

text \<open>A call of \<open>resolve\<close> (of \<open>reject\<close>) of \<open>p\<close> that launched the observer goroutine.\<close>

fun launched_then :: "pid \<Rightarrow> 'a event \<Rightarrow> bool" where
  "launched_then p (Resolved q v b) = (q = p \<and> b)"
| "launched_then p _ = False"

fun launched_catch :: "pid \<Rightarrow> 'a event \<Rightarrow> bool" where
  "launched_catch p (Rejected q e b) = (q = p \<and> b)"
| "launched_catch p _ = False"

text \<open>A call of \<open>resolve\<close> or \<open>reject\<close> of \<open>p\<close>.\<close>

fun settles :: "pid \<Rightarrow> 'a event \<Rightarrow> bool" where
  "settles p (Resolved q v b) = (q = p)"
| "settles p (Rejected q e b) = (q = p)"
| "settles p _ = False"

fun launched :: "'a event \<Rightarrow> bool" where
  "launched (Resolved q v b) = b"
| "launched (Rejected q e b) = b"
| "launched (Finalized q b) = b"
| "launched _ = False"

definition balanced :: "'a world \<Rightarrow> bool" where
  "balanced w \<longleftrightarrow>
     (\<forall>p. cnt (is_invoke_then p) (pool w) + occ (is_then_called p) (events w) =
          occ (launched_then p) (events w)) \<and>
     (\<forall>p. cnt (is_invoke_catch p) (pool w) + occ (is_catch_called p) (events w) =
          occ (launched_catch p) (events w)) \<and>
     wg w + int (occ launched (events w)) =
       int (length (heap w)) + int (cnt (\<lambda>x. x = WgDone) (pool w))"

text \<open>
  What a step tells of the calls of \<open>resolve\<close> and \<open>reject\<close> it makes: the events it
  adds, each with the slot it tested and the goroutine it launched.
\<close>

definition settles_by_slot :: "'a world \<Rightarrow> 'a world \<Rightarrow> bool" where
  "settles_by_slot w w' \<longleftrightarrow>
     (\<exists>es. events w' = events w @ es \<and>
        (\<forall>p v b. Resolved p v b \<in> set es \<longrightarrow>
           b = (then_f (heap w ! p) \<noteq> None) \<and>
           (if b then length (pool w') = Suc (length (pool w)) \<and>
                      last (pool w') = [InvokeThen p v, WgDone]
            else length (pool w') = length (pool w))) \<and>
        (\<forall>p e b. Rejected p e b \<in> set es \<longrightarrow>
           b = (catch_f (heap w ! p) \<noteq> None) \<and>
           (if b then length (pool w') = Suc (length (pool w)) \<and>
                      last (pool w') = [InvokeCatch p e, WgDone]
            else length (pool w') = length (pool w))))"


definition unlaunched :: "pid \<Rightarrow> 'a world \<Rightarrow> bool" where
  "unlaunched p w \<longleftrightarrow> well_formed w \<and> p < length (heap w) \<and> p \<notin> targets w \<and>
     occ (launched_then p) (events w) = 0"

text \<open>The caller's handlers that a stored function value runs when it is called.\<close>

definition then_mentions :: "then_fn \<Rightarrow> hid set" where
  "then_mentions f = set (then_runs f) \<union> set (then_runs_finally f)"

definition catch_mentions :: "catch_fn \<Rightarrow> hid set" where
  "catch_mentions f = set (catch_runs f) \<union> set (catch_runs_finally f)"








section \<open>Properties\<close>

lemma spawn_simps [simp]:
  "heap (spawn g w) = heap w" "wg (spawn g w) = wg w" "pool (spawn g w) = pool w @ [g]"
  "frames (spawn g w) = frames w" "events (spawn g w) = events w"
  by (simp_all add: spawn_def)

lemma emit_simps [simp]:
  "heap (emit e w) = heap w" "wg (emit e w) = wg w" "pool (emit e w) = pool w"
  "frames (emit e w) = frames w" "events (emit e w) = events w @ [e]"
  by (simp_all add: emit_def)

lemma push_simps [simp]:
  "heap (push k g w) = heap w" "wg (push k g w) = wg w"
  "pool (push k g w) = (pool w)[k := g @ pool w ! k]"
  "frames (push k g w) = frames w" "events (push k g w) = events w"
  by (simp_all add: push_def)

lemma assign_simps [simp]:
  "heap (assign c f w) = heap w" "wg (assign c f w) = wg w" "pool (assign c f w) = pool w"
  "events (assign c f w) = events w" "length (frames (assign c f w)) = length (frames w)"
  by (simp_all add: assign_def)

lemma nth_upd: "xs[i := x] ! j = (if i = j \<and> j < length xs then x else xs ! j)"
  by (cases "i < length xs") (auto simp: nth_list_update list_update_beyond)

lemma vars_simps [simp]:
  "vars c (spawn g w) = vars c w" "vars c (emit e w) = vars c w" "vars c (push k g w) = vars c w"
  "vars c (w\<lparr>pool := ps\<rparr>) = vars c w" "vars c (w\<lparr>heap := h\<rparr>) = vars c w"
  "vars c (w\<lparr>wg := n\<rparr>) = vars c w" "vars c (w\<lparr>events := es\<rparr>) = vars c w"
  "vars c (assign c' f w) = (if c' = c \<and> c < length (frames w) then f (vars c w) else vars c w)"
  by (simp_all add: vars_def assign_def nth_upd)

lemma run_append:
  "run (as @ bs) w = (case run as w of Inl x \<Rightarrow> Inl x | Inr w' \<Rightarrow> run bs w')"
  by (induction as arbitrary: w) (auto split: sum.splits)

lemma run_inv:
  assumes "\<And>a w w'. I w \<Longrightarrow> step a w = Inr w' \<Longrightarrow> I w'"
  shows "I w \<Longrightarrow> run as w = Inr w' \<Longrightarrow> I w'"
proof (induction as arbitrary: w)
  case Nil then show ?case by simp
next
  case (Cons a as)
  then show ?case using assms by (auto split: sum.splits)
qed

lemma sched_elim:
  assumes "sched k w = Inr w'"
  obtains x g where "k < length (pool w)" "pool w ! k = x # g"
    "exec k x (w\<lparr>pool := (pool w)[k := g]\<rparr>) = Inr w'"
  using assms by (auto simp: sched_def split: if_splits list.splits)

lemma in_set_upd: "x \<in> set (xs[i := y]) \<Longrightarrow> (i < length xs \<and> x = y) \<or> x \<in> set xs"
  by (cases "i < length xs") (auto dest: set_update_subset_insert[THEN subsetD] simp: list_update_beyond)

subsection \<open>Pending steps\<close>

lemma ops_spawn [simp]: "ops (spawn g w) = ops w \<union> set g"
  by (auto simp: ops_def)

lemma ops_emit [simp]: "ops (emit e w) = ops w"
  by (simp add: ops_def)

lemma ops_push: "y \<in> ops (push k g w) \<Longrightarrow> y \<in> set g \<or> y \<in> ops w"
  by (auto simp: ops_def dest!: in_set_upd)

lemma ops_pop:
  "k < length (pool w) \<Longrightarrow> pool w ! k = x # g \<Longrightarrow>
   y \<in> ops (w\<lparr>pool := (pool w)[k := g]\<rparr>) \<Longrightarrow> y \<in> ops w"
  by (auto simp: ops_def dest!: in_set_upd) (metis list.set_intros(2) nth_mem)

lemma ops_head: "k < length (pool w) \<Longrightarrow> pool w ! k = x # g \<Longrightarrow> x \<in> ops w"
  by (auto simp: ops_def) (metis list.set_intros(1) nth_mem)

lemma ops_upd [simp]:
  "ops (w\<lparr>heap := h\<rparr>) = ops w" "ops (w\<lparr>wg := n\<rparr>) = ops w"
  "ops (w\<lparr>frames := fs\<rparr>) = ops w" "ops (w\<lparr>events := evs\<rparr>) = ops w"
  "ops (assign c f w) = ops w"
  by (simp_all add: ops_def)

subsection \<open>Well-formed states\<close>

lemma register_cong:
  "(\<And>j. t j = t' j) \<Longrightarrow> (\<And>j. c j = c' j) \<Longrightarrow> register t c i ps = register t' c' i ps"
  by (induction ps arbitrary: i) auto

lemma executor_of_nonempty:
  "ps \<noteq> [] \<Longrightarrow> executor_of k c ps t = register (then_of k c) (catch_of k c) 0 ps"
  by (cases k) (auto simp: All_executor_def Race_executor_def AllSettled_executor_def
      Any_executor_def intro!: register_cong)

lemma then_of_eq [simp]:
  "then_of k c i = AllThen d j \<longleftrightarrow> k = KAll \<and> c = d \<and> i = j"
  "then_of k c i = RaceThen d \<longleftrightarrow> k = KRace \<and> c = d"
  "then_of k c i = AllSettledThen d j \<longleftrightarrow> k = KAllSettled \<and> c = d \<and> i = j"
  "then_of k c i = AnyThen d \<longleftrightarrow> k = KAny \<and> c = d"
  "then_of k c i \<noteq> UserThen h" "then_of k c i \<noteq> WrapThen f h" "then_of k c i \<noteq> OnlyFinallyThen h"
  by (cases k; simp)+

lemma catch_of_eq [simp]:
  "catch_of k c i = AllCatch d \<longleftrightarrow> k = KAll \<and> c = d"
  "catch_of k c i = RaceCatch d \<longleftrightarrow> k = KRace \<and> c = d"
  "catch_of k c i = AllSettledCatch d j \<longleftrightarrow> k = KAllSettled \<and> c = d \<and> i = j"
  "catch_of k c i = AnyCatch d j \<longleftrightarrow> k = KAny \<and> c = d \<and> i = j"
  "catch_of k c i \<noteq> UserCatch h" "catch_of k c i \<noteq> WrapCatch g h" "catch_of k c i \<noteq> OnlyFinallyCatch h"
  by (cases k; simp)+

lemma reg_then_simps [simp]:
  "reg_then w p (AllThen c j) \<longleftrightarrow>
     is_kind w c KAll \<and> j < length (inputs (vars c w)) \<and> inputs (vars c w) ! j = p"
  "reg_then w p (RaceThen c) \<longleftrightarrow> is_kind w c KRace \<and> p \<in> set (inputs (vars c w))"
  "reg_then w p (AllSettledThen c j) \<longleftrightarrow>
     is_kind w c KAllSettled \<and> j < length (inputs (vars c w)) \<and> inputs (vars c w) ! j = p"
  "reg_then w p (AnyThen c) \<longleftrightarrow> is_kind w c KAny \<and> p \<in> set (inputs (vars c w))"
  "\<not> reg_then w p (UserThen h)" "\<not> reg_then w p (WrapThen f h)"
  "\<not> reg_then w p (OnlyFinallyThen h)"
  by (auto simp: reg_then_def is_kind_def in_set_conv_nth eq_commute[of _ "then_of _ _ _"])

lemma reg_catch_simps [simp]:
  "reg_catch w p (AllCatch c) \<longleftrightarrow> is_kind w c KAll \<and> p \<in> set (inputs (vars c w))"
  "reg_catch w p (RaceCatch c) \<longleftrightarrow> is_kind w c KRace \<and> p \<in> set (inputs (vars c w))"
  "reg_catch w p (AllSettledCatch c j) \<longleftrightarrow>
     is_kind w c KAllSettled \<and> j < length (inputs (vars c w)) \<and> inputs (vars c w) ! j = p"
  "reg_catch w p (AnyCatch c j) \<longleftrightarrow>
     is_kind w c KAny \<and> j < length (inputs (vars c w)) \<and> inputs (vars c w) ! j = p"
  "\<not> reg_catch w p (UserCatch h)" "\<not> reg_catch w p (WrapCatch g h)"
  "\<not> reg_catch w p (OnlyFinallyCatch h)"
  by (auto simp: reg_catch_def is_kind_def in_set_conv_nth eq_commute[of _ "catch_of _ _ _"])

lemma sig_eq:
  "sig f = sig g \<longleftrightarrow> kind f = kind g \<and> elem f = elem g \<and> target f = target g \<and> inputs f = inputs g"
  by (simp add: sig_def)

lemma ctx_grow: "ctx w' = ctx w \<Longrightarrow> grow w w'"
proof -
  assume a: "ctx w' = ctx w"
  then have m: "map sig (frames w') = map sig (frames w)" by (simp add: ctx_def)
  then have l: "length (frames w') = length (frames w)" by (rule map_eq_imp_length_eq)
  have "sig (vars c w') = sig (vars c w)" if "c < length (frames w)" for c
    using arg_cong[OF m, of "\<lambda>xs. xs ! c"] that l by (simp add: vars_def)
  then show ?thesis using a l by (simp add: grow_def ctx_def)
qed

lemma targets_iff: "p \<in> targets w \<longleftrightarrow> (\<exists>c<length (frames w). target (vars c w) = p)"
  by (auto simp: targets_def vars_def in_set_conv_nth simp del: set_map)

lemma grow_targets:
  assumes "grow w w'" "p \<in> targets w"
  shows "p \<in> targets w'"
proof -
  from assms(2) obtain c where c: "c < length (frames w)" "target (vars c w) = p"
    by (auto simp: targets_iff)
  then have "c < length (frames w')" "target (vars c w') = p"
    using assms(1) by (auto simp: grow_def sig_eq)
  then show ?thesis by (auto simp: targets_iff)
qed

lemma is_kind_grow: "grow w w' \<Longrightarrow> is_kind w c k \<Longrightarrow> is_kind w' c k"
  by (auto simp: grow_def is_kind_def sig_eq)

lemma grow_inputs: "grow w w' \<Longrightarrow> c < length (frames w) \<Longrightarrow> inputs (vars c w') = inputs (vars c w)"
  by (auto simp: grow_def sig_eq)

lemma reg_then_grow:
  assumes "grow w w'" "reg_then w p f"
  shows "reg_then w' p f"
proof -
  from assms(2) obtain c i where c: "c < length (frames w)" "i < length (inputs (vars c w))"
    "inputs (vars c w) ! i = p" "f = then_of (kind (vars c w)) c i"
    unfolding reg_then_def by blast
  have "sig (vars c w') = sig (vars c w)" "c < length (frames w')"
    using assms(1) c(1) by (auto simp: grow_def)
  then show ?thesis unfolding reg_then_def sig_eq using c by (intro exI[of _ c] exI[of _ i]) simp
qed

lemma reg_catch_grow:
  assumes "grow w w'" "reg_catch w p f"
  shows "reg_catch w' p f"
proof -
  from assms(2) obtain c i where c: "c < length (frames w)" "i < length (inputs (vars c w))"
    "inputs (vars c w) ! i = p" "f = catch_of (kind (vars c w)) c i"
    unfolding reg_catch_def by blast
  have "sig (vars c w') = sig (vars c w)" "c < length (frames w')"
    using assms(1) c(1) by (auto simp: grow_def)
  then show ?thesis unfolding reg_catch_def sig_eq using c by (intro exI[of _ c] exI[of _ i]) simp
qed

lemma op_ok_grow: "grow w w' \<Longrightarrow> op_ok w x \<Longrightarrow> op_ok w' x"
  by (cases x)
     (auto simp: reg_then_grow reg_catch_grow grow_targets is_kind_grow,
      auto simp: grow_def is_kind_def sig_eq)

lemma then_ok_grow: "grow w w' \<Longrightarrow> then_ok w p f \<Longrightarrow> then_ok w' p f"
  by (induction f) (auto dest: reg_then_grow[where f = "AllThen _ _"]
      reg_then_grow[where f = "RaceThen _"] reg_then_grow[where f = "AllSettledThen _ _"]
      reg_then_grow[where f = "AnyThen _"])

lemma catch_ok_grow: "grow w w' \<Longrightarrow> catch_ok w p f \<Longrightarrow> catch_ok w' p f"
  by (induction f) (auto dest: reg_catch_grow[where f = "AllCatch _"]
      reg_catch_grow[where f = "RaceCatch _"] reg_catch_grow[where f = "AllSettledCatch _ _"]
      reg_catch_grow[where f = "AnyCatch _ _"])

lemma event_ok_grow: "grow w w' \<Longrightarrow> event_ok w e \<Longrightarrow> event_ok w' e"
  by (cases e) (auto simp: op_ok_grow, auto simp: grow_def)

lemma body_then_ok:
  "then_ok w p f \<Longrightarrow> y \<in> set (body_then f v) \<Longrightarrow> op_ok w y"
  by (induction f v rule: body_then.induct) auto

lemma body_catch_ok:
  "catch_ok w p f \<Longrightarrow> y \<in> set (body_catch f e) \<Longrightarrow> op_ok w y"
  by (induction f e rule: body_catch.induct) auto

lemma sig_assign:
  "(\<And>x. sig (f x) = sig x) \<Longrightarrow> map sig (frames (assign c f w)) = map sig (frames w)"
  by (cases "c < length (frames w)")
     (simp_all add: assign_def map_update list_update_same_conv list_update_beyond)

lemma ctx_assign [simp]: "(\<And>x. sig (f x) = sig x) \<Longrightarrow> ctx (assign c f w) = ctx w"
  by (simp add: ctx_def sig_assign)

lemma ctx_simps [simp]:
  "ctx (spawn g w) = ctx w" "ctx (emit e w) = ctx w" "ctx (push k g w) = ctx w"
  "ctx (w\<lparr>wg := n\<rparr>) = ctx w" "ctx (w\<lparr>events := evs\<rparr>) = ctx w"
  "ctx (w\<lparr>pool := ps\<rparr>) = ctx w"
  "length h = length (heap w) \<Longrightarrow> ctx (w\<lparr>heap := h\<rparr>) = ctx w"
  by (simp_all add: ctx_def)

lemma sig_upd [simp]:
  "sig (f\<lparr>results := r\<rparr>) = sig f" "sig (f\<lparr>errors := es\<rparr>) = sig f"
  "sig (f\<lparr>remaining := n\<rparr>) = sig f" "sig (f\<lparr>settled := b\<rparr>) = sig f"
  by (simp_all add: sig_def)

lemma exec_ctx: "exec k x w = Inr w' \<Longrightarrow> ctx w' = ctx w"
  by (cases x)
     (auto simp: resolve_def reject_def Then_def Catch_def Let_def
           split: option.splits sum.splits if_splits)

lemma reg_then_ok: "reg_then w p f \<Longrightarrow> then_ok w p f"
  by (cases f) auto

lemma reg_catch_ok: "reg_catch w p f \<Longrightarrow> catch_ok w p f"
  by (cases f) auto

lemma targets_lt: "target_ok w \<Longrightarrow> p \<in> targets w \<Longrightarrow> p < length (heap w)"
  by (auto simp: target_ok_def targets_iff)

lemma target_in: "c < length (frames w) \<Longrightarrow> target (vars c w) \<in> targets w"
  by (auto simp: targets_iff)

lemma slot_then_body:
  "slots_ok w \<Longrightarrow> p < length (heap w) \<Longrightarrow> then_f (heap w ! p) = Some f \<Longrightarrow>
   y \<in> set (body_then f v) \<Longrightarrow> op_ok w y"
  unfolding slots_ok_def using body_then_ok by blast

lemma slot_catch_body:
  "slots_ok w \<Longrightarrow> p < length (heap w) \<Longrightarrow> catch_f (heap w ! p) = Some f \<Longrightarrow>
   y \<in> set (body_catch f e) \<Longrightarrow> op_ok w y"
  unfolding slots_ok_def using body_catch_ok by blast

lemma exec_ops:
  "exec k x w = Inr w' \<Longrightarrow> op_ok w x \<Longrightarrow> slots_ok w \<Longrightarrow> target_ok w \<Longrightarrow> y \<in> ops w' \<Longrightarrow>
   y \<in> ops w \<or> op_ok w y"
  by (cases x)
     (auto simp: resolve_def reject_def Then_def Catch_def Let_def is_kind_def
           target_in target_ok_def
           split: option.splits sum.splits if_splits
           dest!: ops_push dest: slot_then_body slot_catch_body)

lemma exec_events:
  "exec k x w = Inr w' \<Longrightarrow> op_ok w x \<Longrightarrow> target_ok w \<Longrightarrow>
   e \<in> set (events w') \<Longrightarrow> e \<in> set (events w) \<or> event_ok w e"
  by (cases x)
     (auto simp: resolve_def reject_def Then_def Catch_def Let_def is_kind_def target_ok_def
           split: option.splits sum.splits if_splits)

lemma exec_slots_aux:
  "exec k x w = Inr w' \<Longrightarrow> op_ok w x \<Longrightarrow> slots_ok w \<Longrightarrow>
     (\<forall>p f. p < length (heap w') \<longrightarrow> then_f (heap w' ! p) = Some f \<longrightarrow> then_ok w p f) \<and>
     (\<forall>p f. p < length (heap w') \<longrightarrow> catch_f (heap w' ! p) = Some f \<longrightarrow> catch_ok w p f) \<and>
     (\<forall>p < length (heap w'). finally_f (heap w' ! p) = None)"
  by (cases x)
     (auto simp: resolve_def reject_def Then_def Catch_def Let_def slots_ok_def nth_upd
           reg_then_ok reg_catch_ok
           split: option.splits sum.splits if_splits)

lemma exec_slots:
  assumes "exec k x w = Inr w'" "op_ok w x" "slots_ok w"
  shows "slots_ok w'"
proof -
  have g: "grow w w'" using exec_ctx[OF assms(1)] by (rule ctx_grow)
  show ?thesis
    using exec_slots_aux[OF assms] then_ok_grow[OF g] catch_ok_grow[OF g]
    unfolding slots_ok_def by blast
qed

lemma ctx_iff:
  assumes "ctx w' = ctx w"
  shows "op_ok w' = op_ok w" "event_ok w' = event_ok w" "then_ok w' = then_ok w"
    "catch_ok w' = catch_ok w" "target_ok w' = target_ok w"
proof -
  have g: "grow w w'" "grow w' w" using assms by (auto intro: ctx_grow)
  show "op_ok w' = op_ok w" "event_ok w' = event_ok w" "then_ok w' = then_ok w"
    "catch_ok w' = catch_ok w"
    using g by (auto simp: fun_eq_iff dest: op_ok_grow event_ok_grow then_ok_grow catch_ok_grow)
  have l: "length (frames w') = length (frames w)" "length (heap w') = length (heap w)"
    using g by (auto simp: grow_def)
  show "target_ok w' = target_ok w"
    using g(1) unfolding target_ok_def l grow_def sig_eq by auto
qed

lemma slots_ok_pool [simp]: "slots_ok (w\<lparr>pool := ps\<rparr>) = slots_ok w"
  by (simp add: slots_ok_def ctx_iff(3,4)[OF ctx_simps(6)])

lemma sched_wf:
  assumes "well_formed w" "sched k w = Inr w'"
  shows "well_formed w'"
proof -
  from assms(2) obtain x g where k: "k < length (pool w)" "pool w ! k = x # g"
    and e: "exec k x (w\<lparr>pool := (pool w)[k := g]\<rparr>) = Inr w'"
    by (rule sched_elim)
  let ?w0 = "w\<lparr>pool := (pool w)[k := g]\<rparr>"
  have c0: "ctx ?w0 = ctx w" by simp
  have c1: "ctx w' = ctx w" using exec_ctx[OF e] by simp
  have x: "op_ok ?w0 x" using assms(1) ops_head[OF k] by (simp add: well_formed_def ctx_iff(1)[OF c0])
  have s0: "slots_ok ?w0" "target_ok ?w0" using assms(1) by (simp_all add: well_formed_def ctx_iff(5)[OF c0])
  have o0: "\<forall>y\<in>ops ?w0. op_ok w y" using assms(1) ops_pop[OF k] by (auto simp: well_formed_def)
  have "\<forall>y\<in>ops w'. op_ok w' y"
    using exec_ops[OF e x s0] o0 by (auto simp: ctx_iff(1)[OF c1] ctx_iff(1)[OF c0])
  moreover have "\<forall>y\<in>set (events w'). event_ok w' y"
    using exec_events[OF e x s0(2)] assms(1)
    by (auto simp: well_formed_def ctx_iff(2)[OF c1] ctx_iff(2)[OF c0])
  moreover have "slots_ok w'" using exec_slots[OF e x s0(1)] .
  moreover have "target_ok w'" using assms(1) by (simp add: well_formed_def ctx_iff(5)[OF c1])
  ultimately show ?thesis by (simp add: well_formed_def)
qed

lemma wf_grow_ops:
  "well_formed w \<Longrightarrow> grow w w' \<Longrightarrow> ops w' \<subseteq> ops w \<union> N \<Longrightarrow> \<forall>y\<in>N. op_ok w' y \<Longrightarrow>
   \<forall>y\<in>ops w'. op_ok w' y"
  unfolding well_formed_def using op_ok_grow by blast

lemma wf_grow_events:
  "well_formed w \<Longrightarrow> grow w w' \<Longrightarrow> set (events w') \<subseteq> set (events w) \<union> N \<Longrightarrow>
   \<forall>y\<in>N. event_ok w' y \<Longrightarrow> \<forall>y\<in>set (events w'). event_ok w' y"
  unfolding well_formed_def using event_ok_grow by blast

lemma NewPromise_wf:
  assumes "well_formed w" "\<forall>y\<in>set (ex (length (heap w))). op_ok (snd (NewPromise ex w)) y"
  shows "well_formed (snd (NewPromise ex w))"
proof -
  let ?w' = "snd (NewPromise ex w)"
  have g: "grow w ?w'" by (simp add: grow_def NewPromise_def Let_def vars_def spawn_def)
  have 1: "\<forall>y\<in>ops ?w'. op_ok ?w' y"
    by (rule wf_grow_ops[OF assms(1) g, where N="set (ex (length (heap w)))"])
       (use assms(2) in \<open>auto simp: NewPromise_def Let_def\<close>)
  have 2: "\<forall>y\<in>set (events ?w'). event_ok ?w' y"
    by (rule wf_grow_events[OF assms(1) g, where N="{}"]) (auto simp: NewPromise_def Let_def)
  have 3: "slots_ok ?w'"
    using assms(1) then_ok_grow[OF g] catch_ok_grow[OF g]
    by (auto simp: well_formed_def slots_ok_def NewPromise_def Let_def nth_append)
  have 4: "target_ok ?w'"
    using assms(1)
    by (auto simp: well_formed_def target_ok_def NewPromise_def Let_def vars_def spawn_def)
  show ?thesis using 1 2 3 4 by (simp add: well_formed_def)
qed

lemma set_register:
  "y \<in> set (register t c i ps) \<Longrightarrow>
   \<exists>j<length ps. y = ThenReg (ps ! j) (t (i + j)) \<or> y = CatchReg (ps ! j) (c (i + j))"
proof (induction ps arbitrary: i)
  case Nil then show ?case by simp
next
  case (Cons p ps)
  from Cons.prems consider "y = ThenReg p (t i)" | "y = CatchReg p (c i)"
    | "y \<in> set (register t c (Suc i) ps)" by auto
  then show ?case
  proof cases
    case 3
    from Cons.IH[OF 3] obtain j where "j < length ps"
      "y = ThenReg (ps ! j) (t (Suc i + j)) \<or> y = CatchReg (ps ! j) (c (Suc i + j))" by blast
    then show ?thesis by (intro exI[of _ "Suc j"]) auto
  qed (auto intro: exI[of _ 0])
qed

lemmas ok_spawn [simp] = ctx_iff[OF ctx_simps(1)]

lemmas ok_emit [simp] = ctx_iff[OF ctx_simps(2)]

lemmas ok_push [simp] = ctx_iff[OF ctx_simps(3)]

lemma resolve_wf: "well_formed w \<Longrightarrow> p < length (heap w) \<Longrightarrow> well_formed (resolve p v w)"
  by (auto simp: well_formed_def resolve_def slots_ok_def)

lemma reject_wf: "well_formed w \<Longrightarrow> p < length (heap w) \<Longrightarrow> well_formed (reject p v w)"
  by (auto simp: well_formed_def reject_def slots_ok_def)

lemma finally_fn_wf: "well_formed w \<Longrightarrow> p < length (heap w) \<Longrightarrow> well_formed (finally_fn p w)"
  by (auto simp: well_formed_def finally_fn_def slots_ok_def)

lemma heap_upd_ok:
  "length h = length (heap w) \<Longrightarrow> op_ok (w\<lparr>heap := h\<rparr>) = op_ok w"
  "length h = length (heap w) \<Longrightarrow> event_ok (w\<lparr>heap := h\<rparr>) = event_ok w"
  "length h = length (heap w) \<Longrightarrow> then_ok (w\<lparr>heap := h\<rparr>) = then_ok w"
  "length h = length (heap w) \<Longrightarrow> catch_ok (w\<lparr>heap := h\<rparr>) = catch_ok w"
  "length h = length (heap w) \<Longrightarrow> target_ok (w\<lparr>heap := h\<rparr>) = target_ok w"
  by (simp_all add: ctx_iff[OF ctx_simps(7)])

lemma Then_wf: "well_formed w \<Longrightarrow> then_ok w p f \<Longrightarrow> well_formed (snd (Then p f w))"
  by (auto simp: well_formed_def Then_def slots_ok_def heap_upd_ok nth_upd)

lemma Catch_wf: "well_formed w \<Longrightarrow> catch_ok w p f \<Longrightarrow> well_formed (snd (Catch p f w))"
  by (auto simp: well_formed_def Catch_def slots_ok_def heap_upd_ok nth_upd)

lemma Finally_wf: "well_formed w \<Longrightarrow> p < length (heap w) \<Longrightarrow> well_formed (Finally p h w)"
  by (auto simp: well_formed_def Finally_def Let_def slots_ok_def heap_upd_ok nth_upd
      split: option.splits)

lemma locals_simps [simp]:
  "kind (locals k T ps t) = k" "elem (locals k T ps t) = T" "target (locals k T ps t) = t"
  "inputs (locals k T ps t) = ps" "remaining (locals k T ps t) = int (length ps)"
  "settled (locals k T ps t) = False"
  by (simp_all add: locals_def)

text \<open>The state right after a call of a combinator.\<close>

lemma combinator_elim:
  assumes "combinator k T ps w = Inr w'"
  obtains "\<forall>p\<in>set ps. p < length (heap w)"
    "heap w' = heap w @ [\<lparr>then_f = None, catch_f = None, finally_f = None\<rparr>]"
    "wg w' = wg w + 1"
    "pool w' = pool w @ [executor_of k (length (frames w)) ps (length (heap w))]"
    "frames w' = frames w @ [locals k T ps (length (heap w))]"
    "events w' = events w"
  using assms
  by (auto simp: combinator_def NewPromise_def Let_def list_all_iff split: if_splits)

lemma executor_ops_ok:
  assumes "is_kind w c k" "inputs (vars c w) = ps" "target (vars c w) = t"
    and "t < length (heap w)" and "y \<in> set (executor_of k c ps t)"
  shows "op_ok w y"
proof (cases "ps = []")
  case True
  then show ?thesis using assms target_in[of c w]
    by (cases k) (auto simp: All_executor_def Race_executor_def AllSettled_executor_def
        Any_executor_def is_kind_def)
next
  case False
  then have "y \<in> set (register (then_of k c) (catch_of k c) 0 ps)"
    using assms(5) by (simp add: executor_of_nonempty)
  from set_register[OF this] show ?thesis
    using assms(1-3) by (fastforce simp: reg_then_def reg_catch_def is_kind_def)
qed

lemma combinator_grow: "combinator k T ps w = Inr w' \<Longrightarrow> grow w w'"
  by (erule combinator_elim) (simp add: grow_def vars_def nth_append)

lemma combinator_wf:
  assumes "well_formed w" "combinator k T ps w = Inr w'"
  shows "well_formed w'"
proof -
  from assms(2) have ps: "\<forall>p\<in>set ps. p < length (heap w)"
    and f: "heap w' = heap w @ [\<lparr>then_f = None, catch_f = None, finally_f = None\<rparr>]"
      "pool w' = pool w @ [executor_of k (length (frames w)) ps (length (heap w))]"
      "frames w' = frames w @ [locals k T ps (length (heap w))]"
      "events w' = events w"
    by (auto elim: combinator_elim)
  have g: "grow w w'" using assms(2) by (rule combinator_grow)
  have v: "vars (length (frames w)) w' = locals k T ps (length (heap w))"
    by (simp add: vars_def f)
  have ik: "is_kind w' (length (frames w)) k" by (simp add: is_kind_def v) (simp add: f)
  have 1: "\<forall>y\<in>ops w'. op_ok w' y"
    by (rule wf_grow_ops[OF assms(1) g,
          where N="set (executor_of k (length (frames w)) ps (length (heap w)))"])
       (use f executor_ops_ok[OF ik, of ps "length (heap w)"] v in \<open>auto simp: ops_def\<close>)
  have 2: "\<forall>y\<in>set (events w'). event_ok w' y"
    by (rule wf_grow_events[OF assms(1) g, where N="{}"]) (auto simp: f)
  have 3: "slots_ok w'"
    using assms(1) then_ok_grow[OF g] catch_ok_grow[OF g]
    by (auto simp: well_formed_def slots_ok_def f nth_append)
  have 4: "target_ok w'"
    using assms(1) ps
    by (auto simp: well_formed_def target_ok_def f vars_def nth_append less_Suc_eq)
  show ?thesis using 1 2 3 4 by (simp add: well_formed_def)
qed

lemma step_wf: "well_formed w \<Longrightarrow> step a w = Inr w' \<Longrightarrow> well_formed w'"
proof (cases a)
  case CallNewPromise
  assume "well_formed w" "step a w = Inr w'"
  then show ?thesis using CallNewPromise NewPromise_wf[of w "\<lambda>p. []"] by auto
qed (auto simp: own_def exists_def split: sum.splits if_splits
      intro: resolve_wf reject_wf finally_fn_wf Then_wf Catch_wf Finally_wf combinator_wf sched_wf)

lemma wf_init: "well_formed init"
  by (simp add: well_formed_def init_def ops_def slots_ok_def target_ok_def)

lemma run_wf: "well_formed w \<Longrightarrow> run as w = Inr w' \<Longrightarrow> well_formed w'"
  using run_inv[of well_formed] step_wf by blast

lemmas run_defs = NewPromise_def resolve_def reject_def finally_fn_def Then_def Catch_def
  Finally_def combinator_def sched_def own_def exists_def spawn_def emit_def push_def Let_def
  All_executor_def Race_executor_def AllSettled_executor_def Any_executor_def init_def
  locals_def assign_def vars_def

text \<open>
  C9. The slot \<open>finally\<close> of every promise is nil in every state a run reaches: no
  pending step and no event belongs to a completion observer, and a call of the closure
  \<open>finally\<close> by an executor launches nothing, leaves the counter alone and only
  records that it was called.
\<close>

theorem finally_slot_always_nil:
  assumes "run as init = Inr s"
  shows "(\<forall>p<length (heap s). finally_f (heap s ! p) = None) \<and>
         (\<forall>p. InvokeFinally p \<notin> ops s) \<and>
         (\<forall>p h. FinallyCalled p h \<notin> set (events s)) \<and>
         (\<forall>p s'. step (ExecFinally p) s = Inr s' \<longrightarrow>
            pool s' = pool s \<and> wg s' = wg s \<and> heap s' = heap s \<and>
            events s' = events s @ [Finalized p False])"
proof -
  have w: "well_formed s" using run_wf[OF wf_init assms] .
  have 1: "\<forall>p<length (heap s). finally_f (heap s ! p) = None"
    using w by (simp add: well_formed_def slots_ok_def)
  have 2: "\<forall>p. InvokeFinally p \<notin> ops s" using w by (auto simp: well_formed_def)
  have 3: "\<forall>p h. FinallyCalled p h \<notin> set (events s)" using w by (auto simp: well_formed_def)
  have 4: "\<forall>p s'. step (ExecFinally p) s = Inr s' \<longrightarrow>
            pool s' = pool s \<and> wg s' = wg s \<and> heap s' = heap s \<and>
            events s' = events s @ [Finalized p False]"
    using 1 by (auto simp: own_def finally_fn_def split: sum.splits if_splits)
  show ?thesis using 1 2 3 4 by blast
qed

theorem finally_slot_always_nil_witness:
  "(case run [CallNewPromise, CallThen 0 1, CallFinally 0 2, ExecFinally 0] (init :: nat world) of
      Inl _ \<Rightarrow> False
    | Inr s \<Rightarrow> finally_f (heap s ! 0) = None)"
proof -
  obtain s where r: "run [CallNewPromise, CallThen 0 1, CallFinally 0 2, ExecFinally 0]
      (init :: nat world) = Inr s"
    by (simp add: run_defs)
  have "length (heap s) = 1" using r by (simp add: run_defs) fastforce
  with finally_slot_always_nil[OF r] have "finally_f (heap s ! 0) = None" by simp
  then show ?thesis by (simp only: r sum.case)
qed

text \<open>
  C7. Called with no promise, in any state, the executor of \<open>All\<close> and of \<open>AllSettled\<close>
  consists of one step, the call of \<open>resolve\<close> with an empty slice, and the executor of
  \<open>Race\<close> and of \<open>Any\<close> of one step, the call of \<open>reject\<close> with its error. When the
  executor runs before an observer is registered on the new promise, that settlement is
  all that happens; when the caller has registered an observer on the promise that the
  combinator returned, the observer is called with the empty slice, respectively with the
  error.
\<close>

theorem zero_inputs_settle_at_once:
  fixes w :: "('a::zero) world"
  shows "executor_of KAll c [] t = [CallResolve t (Slice []) :: 'a op] \<and>
         executor_of KAllSettled c [] t = [CallResolve t (Slice []) :: 'a op] \<and>
         executor_of KRace c [] t = [CallReject t ''no promises to race'' :: 'a op] \<and>
         executor_of KAny c [] t = [CallReject t ''all promises rejected'' :: 'a op] \<and>
         (\<exists>s. run [CallAll T [], Sched (length (pool w))] w = Inr s \<and>
            pool s = pool w @ [[]] \<and>
            events s = events w @ [Resolved (length (heap w)) (Slice []) False]) \<and>
         (\<exists>s. run [CallAllSettled T [], Sched (length (pool w))] w = Inr s \<and>
            pool s = pool w @ [[]] \<and>
            events s = events w @ [Resolved (length (heap w)) (Slice []) False]) \<and>
         (\<exists>s. run [CallRace T [], Sched (length (pool w))] w = Inr s \<and>
            pool s = pool w @ [[]] \<and>
            events s = events w @ [Rejected (length (heap w)) ''no promises to race'' False]) \<and>
         (\<exists>s. run [CallAny T [], Sched (length (pool w))] w = Inr s \<and>
            pool s = pool w @ [[]] \<and>
            events s = events w @ [Rejected (length (heap w)) ''all promises rejected'' False]) \<and>
         (\<exists>s. run [CallAll T [], CallThen (length (heap w)) h, Sched (length (pool w)),
                    Sched (Suc (length (pool w)))] w = Inr s \<and>
            pool s = pool w @ [[], [WgDone]] \<and>
            events s = events w @ [Resolved (length (heap w)) (Slice []) True,
              ThenCalled (length (heap w)) (UserThen h) (Slice [])]) \<and>
         (\<exists>s. run [CallAllSettled T [], CallThen (length (heap w)) h, Sched (length (pool w)),
                    Sched (Suc (length (pool w)))] w = Inr s \<and>
            pool s = pool w @ [[], [WgDone]] \<and>
            events s = events w @ [Resolved (length (heap w)) (Slice []) True,
              ThenCalled (length (heap w)) (UserThen h) (Slice [])]) \<and>
         (\<exists>s. run [CallRace T [], CallCatch (length (heap w)) h, Sched (length (pool w)),
                    Sched (Suc (length (pool w)))] w = Inr s \<and>
            pool s = pool w @ [[], [WgDone]] \<and>
            events s = events w @ [Rejected (length (heap w)) ''no promises to race'' True,
              CatchCalled (length (heap w)) (UserCatch h) ''no promises to race'']) \<and>
         (\<exists>s. run [CallAny T [], CallCatch (length (heap w)) h, Sched (length (pool w)),
                    Sched (Suc (length (pool w)))] w = Inr s \<and>
            pool s = pool w @ [[], [WgDone]] \<and>
            events s = events w @ [Rejected (length (heap w)) ''all promises rejected'' True,
              CatchCalled (length (heap w)) (UserCatch h) ''all promises rejected''])"
proof -
  have 1: "executor_of KAll c [] t = [CallResolve t (Slice []) :: 'a op]"
    "executor_of KAllSettled c [] t = [CallResolve t (Slice []) :: 'a op]"
    "executor_of KRace c [] t = [CallReject t ''no promises to race'' :: 'a op]"
    "executor_of KAny c [] t = [CallReject t ''all promises rejected'' :: 'a op]"
    by (simp_all add: All_executor_def AllSettled_executor_def Race_executor_def Any_executor_def)
  note defs = combinator_def NewPromise_def sched_def resolve_def reject_def exists_def
    Then_def Catch_def Let_def nth_append list_update_append
    All_executor_def AllSettled_executor_def Race_executor_def Any_executor_def
  have 2: "\<exists>s. run [CallAll T [], Sched (length (pool w))] w = Inr s \<and>
            pool s = pool w @ [[]] \<and>
            events s = events w @ [Resolved (length (heap w)) (Slice []) False]"
    by (simp add: defs)
  have 3: "\<exists>s. run [CallAllSettled T [], Sched (length (pool w))] w = Inr s \<and>
            pool s = pool w @ [[]] \<and>
            events s = events w @ [Resolved (length (heap w)) (Slice []) False]"
    by (simp add: defs)
  have 4: "\<exists>s. run [CallRace T [], Sched (length (pool w))] w = Inr s \<and>
            pool s = pool w @ [[]] \<and>
            events s = events w @ [Rejected (length (heap w)) ''no promises to race'' False]"
    by (simp add: defs)
  have 5: "\<exists>s. run [CallAny T [], Sched (length (pool w))] w = Inr s \<and>
            pool s = pool w @ [[]] \<and>
            events s = events w @ [Rejected (length (heap w)) ''all promises rejected'' False]"
    by (simp add: defs)
  have 6: "\<exists>s. run [CallAll T [], CallThen (length (heap w)) h, Sched (length (pool w)),
                    Sched (Suc (length (pool w)))] w = Inr s \<and>
            pool s = pool w @ [[], [WgDone]] \<and>
            events s = events w @ [Resolved (length (heap w)) (Slice []) True,
              ThenCalled (length (heap w)) (UserThen h) (Slice [])]"
    by (simp add: defs)
  have 7: "\<exists>s. run [CallAllSettled T [], CallThen (length (heap w)) h, Sched (length (pool w)),
                    Sched (Suc (length (pool w)))] w = Inr s \<and>
            pool s = pool w @ [[], [WgDone]] \<and>
            events s = events w @ [Resolved (length (heap w)) (Slice []) True,
              ThenCalled (length (heap w)) (UserThen h) (Slice [])]"
    by (simp add: defs)
  have 8: "\<exists>s. run [CallRace T [], CallCatch (length (heap w)) h, Sched (length (pool w)),
                    Sched (Suc (length (pool w)))] w = Inr s \<and>
            pool s = pool w @ [[], [WgDone]] \<and>
            events s = events w @ [Rejected (length (heap w)) ''no promises to race'' True,
              CatchCalled (length (heap w)) (UserCatch h) ''no promises to race'']"
    by (simp add: defs)
  have 9: "\<exists>s. run [CallAny T [], CallCatch (length (heap w)) h, Sched (length (pool w)),
                    Sched (Suc (length (pool w)))] w = Inr s \<and>
            pool s = pool w @ [[], [WgDone]] \<and>
            events s = events w @ [Rejected (length (heap w)) ''all promises rejected'' True,
              CatchCalled (length (heap w)) (UserCatch h) ''all promises rejected'']"
    by (simp add: defs)
  show ?thesis by (intro conjI 1 2 3 4 5 6 7 8 9)
qed

theorem zero_inputs_settle_at_once_witness:
  "(\<exists>s. run [CallAll Base [], CallThen 0 7, Sched 0, Sched 1] (init :: nat world) = Inr s \<and>
        events s = [Resolved 0 (Slice []) True, ThenCalled 0 (UserThen 7) (Slice [])]) \<and>
   (\<exists>s. run [CallRace Base [], Sched 0] (init :: nat world) = Inr s \<and>
        events s = [Rejected 0 ''no promises to race'' False])"
proof -
  have i: "length (heap (init :: nat world)) = 0" "length (pool (init :: nat world)) = 0"
    "events (init :: nat world) = []"
    by (simp_all add: init_def)
  from zero_inputs_settle_at_once[of _ _ Base "init :: nat world" 7] show ?thesis
    unfolding i by (simp only: append_Nil One_nat_def) blast
qed

lemma exec_heap:
  "exec k x w = Inr w' \<Longrightarrow>
     heap w' = heap w \<or>
     (\<exists>q g. x = ThenReg q g \<and> heap w' = (heap w)[q := (heap w ! q)\<lparr>then_f := Some g\<rparr>]) \<or>
     (\<exists>q g. x = CatchReg q g \<and> heap w' = (heap w)[q := (heap w ! q)\<lparr>catch_f := Some g\<rparr>])"
  by (cases x)
     (auto simp: resolve_def reject_def Then_def Catch_def Let_def
           split: option.splits sum.splits if_splits)

lemma exec_new_ops:
  "exec k x w = Inr w' \<Longrightarrow> y \<in> ops w' \<Longrightarrow> y \<in> ops w \<or> ((\<forall>q g. y \<noteq> ThenReg q g) \<and> (\<forall>q g. y \<noteq> CatchReg q g))"
proof (cases x)
  case (InvokeThen p v)
  assume a: "exec k x w = Inr w'" "y \<in> ops w'"
  then obtain f where f: "then_f (heap w ! p) = Some f"
    "w' = push k (body_then f v) (emit (ThenCalled p f v) w)"
    using InvokeThen by (auto split: option.splits)
  have "\<forall>z\<in>set (body_then f v). (\<forall>q h. z \<noteq> ThenReg q h) \<and> (\<forall>q h. z \<noteq> CatchReg q h)"
    by (induction f v rule: body_then.induct) auto
  then show ?thesis using a(2) f(2) by (auto dest!: ops_push)
next
  case (InvokeCatch p e)
  assume a: "exec k x w = Inr w'" "y \<in> ops w'"
  then obtain f where f: "catch_f (heap w ! p) = Some f"
    "w' = push k (body_catch f e) (emit (CatchCalled p f e) w)"
    using InvokeCatch by (auto split: option.splits)
  have "\<forall>z\<in>set (body_catch f e). (\<forall>q h. z \<noteq> ThenReg q h) \<and> (\<forall>q h. z \<noteq> CatchReg q h)"
    by (induction f e rule: body_catch.induct) auto
  then show ?thesis using a(2) f(2) by (auto dest!: ops_push)
qed (auto simp: resolve_def reject_def Then_def Catch_def Let_def
       split: option.splits sum.splits if_splits dest!: ops_push)

lemma exec_events_then:
  "exec k x w = Inr w' \<Longrightarrow>
   \<exists>es. events w' = events w @ es \<and>
     (\<forall>p g v. ThenCalled p g v \<in> set es \<longrightarrow> x = InvokeThen p v \<and> then_f (heap w ! p) = Some g)"
  by (cases x)
     (auto simp: resolve_def reject_def Then_def Catch_def Let_def
           split: option.splits sum.splits if_splits)

lemma exec_pinned:
  assumes "exec k x w = Inr w'" "pinned p f w" "\<forall>g. x \<noteq> ThenReg p g"
  shows "pinned p f w'"
proof -
  have 1: "\<forall>g. ThenReg p g \<notin> ops w'"
    using exec_new_ops[OF assms(1)] assms(2) by (auto simp: pinned_def)
  have 2: "p < length (heap w') \<and> then_f (heap w' ! p) = Some f"
    using exec_heap[OF assms(1)] assms(2,3) by (auto simp: pinned_def nth_upd)
  show ?thesis using 1 2 by (simp add: pinned_def)
qed

lemma sched_pinned:
  assumes "sched k w = Inr w'" "pinned p f w"
  shows "pinned p f w' \<and> (\<exists>es. events w' = events w @ es \<and>
     (\<forall>g v. ThenCalled p g v \<in> set es \<longrightarrow> g = f))"
proof -
  from assms(1) obtain x g where k: "k < length (pool w)" "pool w ! k = x # g"
    and e: "exec k x (w\<lparr>pool := (pool w)[k := g]\<rparr>) = Inr w'"
    by (rule sched_elim)
  have x: "\<forall>g. x \<noteq> ThenReg p g" using ops_head[OF k] assms(2) by (auto simp: pinned_def)
  have p0: "pinned p f (w\<lparr>pool := (pool w)[k := g]\<rparr>)"
    using assms(2) ops_pop[OF k] by (auto simp: pinned_def)
  from exec_events_then[OF e] p0 exec_pinned[OF e p0 x] show ?thesis
    by (auto simp: pinned_def)
qed

lemma executor_no_reg:
  "p \<notin> set ps \<Longrightarrow> ThenReg p g \<notin> set (executor_of k c ps t)"
proof (cases "ps = []")
  case True
  then show ?thesis
    by (cases k) (auto simp: All_executor_def Race_executor_def AllSettled_executor_def
        Any_executor_def)
next
  case False
  assume "p \<notin> set ps"
  then show ?thesis using False set_register[of "ThenReg p g" "then_of k c" "catch_of k c" 0 ps]
    by (auto simp: executor_of_nonempty dest: nth_mem)
qed

lemma combinator_pinned:
  assumes "combinator c T ps w = Inr w'" "pinned p f w" "p \<notin> set ps"
  shows "pinned p f w' \<and> (\<exists>es. events w' = events w @ es \<and>
     (\<forall>g v. ThenCalled p g v \<in> set es \<longrightarrow> g = f))"
proof -
  from assms(1) have f: "heap w' = heap w @ [\<lparr>then_f = None, catch_f = None, finally_f = None\<rparr>]"
    "events w' = events w"
    "pool w' = pool w @ [executor_of c (length (frames w)) ps (length (heap w))]"
    by (auto elim: combinator_elim)
  show ?thesis using assms(2) executor_no_reg[OF assms(3)]
    by (auto simp: pinned_def f ops_def nth_append)
qed

lemma step_pinned:
  assumes "step a w = Inr w'" "pinned p f w" "\<not> registers_then p a"
  shows "pinned p f w' \<and> (\<exists>es. events w' = events w @ es \<and>
     (\<forall>g v. ThenCalled p g v \<in> set es \<longrightarrow> g = f))"
proof (cases a)
  case (Sched k)
  then have "sched k w = Inr w'" using assms(1) by simp
  from sched_pinned[OF this assms(2)] show ?thesis .
next
  case CallNewPromise
  then show ?thesis using assms
    by (auto simp: pinned_def NewPromise_def Let_def nth_append ops_def)
next
  case (CallAll T ps)
  then have "combinator KAll T ps w = Inr w'" "p \<notin> set ps" using assms by auto
  from combinator_pinned[OF this(1) assms(2) this(2)] show ?thesis .
next
  case (CallRace T ps)
  then have "combinator KRace T ps w = Inr w'" "p \<notin> set ps" using assms by auto
  from combinator_pinned[OF this(1) assms(2) this(2)] show ?thesis .
next
  case (CallAllSettled T ps)
  then have "combinator KAllSettled T ps w = Inr w'" "p \<notin> set ps" using assms by auto
  from combinator_pinned[OF this(1) assms(2) this(2)] show ?thesis .
next
  case (CallAny T ps)
  then have "combinator KAny T ps w = Inr w'" "p \<notin> set ps" using assms by auto
  from combinator_pinned[OF this(1) assms(2) this(2)] show ?thesis .
qed (use assms in \<open>auto simp: pinned_def own_def exists_def resolve_def reject_def finally_fn_def
      Then_def Catch_def Finally_def Let_def nth_upd ops_def split: sum.splits if_splits\<close>)

lemma run_pinned:
  "run as w = Inr s \<Longrightarrow> pinned p f w \<Longrightarrow> \<forall>a\<in>set as. \<not> registers_then p a \<Longrightarrow>
   pinned p f s \<and> (\<exists>es. events s = events w @ es \<and>
     (\<forall>g v. ThenCalled p g v \<in> set es \<longrightarrow> g = f))"
proof (induction as arbitrary: w)
  case Nil then show ?case by simp
next
  case (Cons a as)
  from Cons.prems(1) obtain w1 where 1: "step a w = Inr w1" "run as w1 = Inr s"
    by (auto split: sum.splits)
  from step_pinned[OF 1(1) Cons.prems(2)] Cons.prems(3)
  obtain es where 2: "pinned p f w1" "events w1 = events w @ es"
    "\<forall>g v. ThenCalled p g v \<in> set es \<longrightarrow> g = f" by auto
  from Cons.IH[OF 1(2) 2(1)] Cons.prems(3)
  obtain es' where 3: "pinned p f s" "events s = events w1 @ es'"
    "\<forall>g v. ThenCalled p g v \<in> set es' \<longrightarrow> g = f" by auto
  show ?case using 2 3 by (intro conjI exI[of _ "es @ es'"]) auto
qed

text \<open>
  C8. \<open>Then\<close> stores its handler in the slot \<open>then\<close> whatever the slot held, and returns
  its receiver; so the second of two calls of \<open>Then\<close> leaves its handler alone in the slot.
  After \<open>Finally(f)\<close> and then \<open>Then(h)\<close> the slot holds \<open>h\<close> itself, not a wrapper: as long
  as nothing is registered on the slot again, every call \<open>p.then(value)\<close> that follows
  calls \<open>h\<close>, and none of them runs \<open>f\<close>.
\<close>

theorem Then_replaces_observer:
  fixes w :: "('a::zero) world"
  assumes "p < length (heap w)"
  shows "fst (Then p h w) = p \<and>
         then_f (heap (snd (Then p h w)) ! p) = Some h \<and>
         then_f (heap (snd (Then p h2 (snd (Then p h1 w)))) ! p) = Some h2 \<and>
         then_f (heap (snd (Then p (UserThen u) (Finally p f w))) ! p) = Some (UserThen u) \<and>
         (\<forall>as s. (\<forall>g. ThenReg p g \<notin> ops w) \<longrightarrow> (\<forall>a\<in>set as. \<not> registers_then p a) \<longrightarrow>
            run (CallFinally p f # CallThen p u # as) w = Inr s \<longrightarrow>
            (\<exists>es. events s = events w @ es \<and>
               (\<forall>g v. ThenCalled p g v \<in> set es \<longrightarrow>
                  g = UserThen u \<and> f \<notin> set (then_runs_finally g))))"
proof -
  have 1: "fst (Then p h w) = p" by (simp add: Then_def)
  have 2: "then_f (heap (snd (Then p h w)) ! p) = Some h"
    using assms by (simp add: Then_def)
  have 3: "then_f (heap (snd (Then p h2 (snd (Then p h1 w)))) ! p) = Some h2"
    using assms by (simp add: Then_def)
  have 4: "then_f (heap (snd (Then p (UserThen u) (Finally p f w))) ! p) = Some (UserThen u)"
    using assms by (simp add: Then_def Finally_def Let_def)
  have 5: "\<exists>es. events s = events w @ es \<and>
               (\<forall>g v. ThenCalled p g v \<in> set es \<longrightarrow>
                  g = UserThen u \<and> f \<notin> set (then_runs_finally g))"
    if a: "\<forall>g. ThenReg p g \<notin> ops w" "\<forall>a\<in>set as. \<not> registers_then p a"
      "run (CallFinally p f # CallThen p u # as) w = Inr s" for as s
  proof -
    let ?w2 = "snd (Then p (UserThen u) (Finally p f w))"
    have r: "run as ?w2 = Inr s" using a(3) assms by (simp add: exists_def Finally_def Let_def)
    have pin: "pinned p (UserThen u) ?w2"
      using assms a(1) 4 by (simp add: pinned_def Then_def Finally_def Let_def ops_def)
    have ev: "events ?w2 = events w" by (simp add: Then_def Finally_def Let_def)
    from run_pinned[OF r pin a(2)] obtain es where es: "events s = events w @ es"
      "\<forall>g v. ThenCalled p g v \<in> set es \<longrightarrow> g = UserThen u" unfolding ev by blast
    have "\<forall>g v. ThenCalled p g v \<in> set es \<longrightarrow> g = UserThen u \<and> f \<notin> set (then_runs_finally g)"
    proof (intro allI impI)
      fix g v assume "ThenCalled p g v \<in> set es"
      then have "g = UserThen u" using es(2) by blast
      then show "g = UserThen u \<and> f \<notin> set (then_runs_finally g)" by simp
    qed
    then show ?thesis using es(1) by blast
  qed
  show ?thesis using 1 2 3 4 5 by blast
qed

theorem Then_replaces_observer_witness:
  "then_f (heap (snd (Then 0 (UserThen 1) (Finally 0 2
      (snd (NewPromise (\<lambda>p. []) (init :: nat world)))))) ! 0) = Some (UserThen 1) \<and>
   fst (Then 0 (UserThen 1) (snd (NewPromise (\<lambda>p. []) (init :: nat world)))) = 0"
proof -
  have "0 < length (heap (snd (NewPromise (\<lambda>p. []) (init :: nat world))))"
    by (simp add: NewPromise_def init_def Let_def)
  from Then_replaces_observer[OF this] show ?thesis by blast
qed

lemma cnt_Nil [simp]: "cnt P [] = 0"
  by (simp add: cnt_def)

lemma cnt_append [simp]: "cnt P (ps @ qs) = cnt P ps + cnt P qs"
  by (simp add: cnt_def)

lemma cnt_Cons [simp]: "cnt P (g # ps) = length (filter P g) + cnt P ps"
  by (simp add: cnt_def)

lemma cnt_update:
  "k < length ps \<Longrightarrow> cnt P (ps[k := g]) + length (filter P (ps ! k)) = cnt P ps + length (filter P g)"
proof (induction ps arbitrary: k)
  case Nil then show ?case by simp
next
  case (Cons a ps) then show ?case by (cases k) auto
qed

lemma cnt_pop:
  "k < length ps \<Longrightarrow> ps ! k = x # g \<Longrightarrow> cnt P ps = cnt P (ps[k := g]) + (if P x then 1 else 0)"
  using cnt_update[of k ps P g] by auto

lemma cnt_push [simp]:
  "k < length ps \<Longrightarrow> cnt P (ps[k := new @ ps ! k]) = cnt P ps + length (filter P new)"
  using cnt_update[of k ps P "new @ ps ! k"] by auto

lemma cnt_push1 [simp]:
  "k < length ps \<Longrightarrow> cnt P (ps[k := y # ps ! k]) = cnt P ps + (if P y then 1 else 0)"
  using cnt_push[of k ps P "[y]"] by simp

lemma occ_simps [simp]:
  "occ Q [] = 0" "occ Q (es @ fs) = occ Q es + occ Q fs"
  "occ Q (e # es) = (if Q e then 1 else 0) + occ Q es"
  by (simp_all add: occ_def)

lemma occ_zero: "occ Q es = 0 \<longleftrightarrow> (\<forall>e\<in>set es. \<not> Q e)"
  by (induction es) auto

lemma body_then_no_invoke:
  "filter (is_invoke_then p) (body_then f v) = [] \<and> filter (is_invoke_catch p) (body_then f v) = []"
  by (induction f v rule: body_then.induct) auto

lemma body_catch_no_invoke:
  "filter (is_invoke_then p) (body_catch f e) = [] \<and> filter (is_invoke_catch p) (body_catch f e) = []"
  by (induction f e rule: body_catch.induct) auto

lemma exec_then_count:
  "exec k x w = Inr w' \<Longrightarrow> k < length (pool w) \<Longrightarrow>
   cnt (is_invoke_then p) (pool w') + occ (is_then_called p) (events w') +
     occ (launched_then p) (events w) =
   cnt (is_invoke_then p) (pool w) + occ (is_then_called p) (events w) +
     occ (launched_then p) (events w') + (if is_invoke_then p x then 1 else 0)"
  by (cases x)
     (auto simp: resolve_def reject_def Then_def Catch_def Let_def body_then_no_invoke
        body_catch_no_invoke split: option.splits sum.splits if_splits)

lemma exec_catch_count:
  "exec k x w = Inr w' \<Longrightarrow> k < length (pool w) \<Longrightarrow>
   cnt (is_invoke_catch p) (pool w') + occ (is_catch_called p) (events w') +
     occ (launched_catch p) (events w) =
   cnt (is_invoke_catch p) (pool w) + occ (is_catch_called p) (events w) +
     occ (launched_catch p) (events w') + (if is_invoke_catch p x then 1 else 0)"
  by (cases x)
     (auto simp: resolve_def reject_def Then_def Catch_def Let_def body_then_no_invoke
        body_catch_no_invoke split: option.splits sum.splits if_splits)

lemma body_then_no_done: "filter (\<lambda>x. x = WgDone) (body_then f v) = []"
  by (induction f v rule: body_then.induct) auto

lemma body_catch_no_done: "filter (\<lambda>x. x = WgDone) (body_catch f e) = []"
  by (induction f e rule: body_catch.induct) auto

lemma exec_wg_count:
  "exec k x w = Inr w' \<Longrightarrow> k < length (pool w) \<Longrightarrow> slots_ok w \<Longrightarrow>
   length (heap w') = length (heap w) \<and>
   wg w' + int (occ launched (events w')) + int (cnt (\<lambda>x. x = WgDone) (pool w)) +
     (if x = WgDone then 1 else 0) =
   wg w + int (occ launched (events w)) + int (cnt (\<lambda>x. x = WgDone) (pool w'))"
  by (cases x)
     (auto simp: resolve_def reject_def Then_def Catch_def Let_def body_then_no_done
        body_catch_no_done split: option.splits sum.splits if_splits)

lemma sched_balanced:
  assumes "sched k w = Inr w'" "balanced w" "well_formed w"
  shows "balanced w'"
proof -
  from assms(1) obtain x g where k: "k < length (pool w)" "pool w ! k = x # g"
    and e: "exec k x (w\<lparr>pool := (pool w)[k := g]\<rparr>) = Inr w'"
    by (rule sched_elim)
  let ?w0 = "w\<lparr>pool := (pool w)[k := g]\<rparr>"
  have k0: "k < length (pool ?w0)" using k by simp
  have s0: "slots_ok ?w0" using assms(3) by (simp add: well_formed_def)
  note pop = cnt_pop[OF k]
  have 1: "cnt (is_invoke_then p) (pool w') + occ (is_then_called p) (events w') =
          occ (launched_then p) (events w')" for p
    using exec_then_count[OF e k0, of p] pop[of "is_invoke_then p"]
      assms(2)[unfolded balanced_def, THEN conjunct1, THEN spec, of p]
    by (simp split: if_splits)
  have 2: "cnt (is_invoke_catch p) (pool w') + occ (is_catch_called p) (events w') =
          occ (launched_catch p) (events w')" for p
    using exec_catch_count[OF e k0, of p] pop[of "is_invoke_catch p"]
      assms(2)[unfolded balanced_def, THEN conjunct2, THEN conjunct1, THEN spec, of p]
    by (simp split: if_splits)
  have 3: "wg w' + int (occ launched (events w')) =
       int (length (heap w')) + int (cnt (\<lambda>x. x = WgDone) (pool w'))"
    using exec_wg_count[OF e k0 s0] pop[of "\<lambda>x. x = WgDone"]
      assms(2)[unfolded balanced_def, THEN conjunct2, THEN conjunct2]
    by (simp split: if_splits)
  show ?thesis unfolding balanced_def using 1 2 3 by blast
qed

lemma executor_plain:
  assumes "y \<in> set (executor_of k c ps t)"
  shows "\<not> is_invoke_then p y \<and> \<not> is_invoke_catch p y \<and> y \<noteq> WgDone"
proof (cases "ps = []")
  case True
  then show ?thesis using assms
    by (cases k) (auto simp: All_executor_def Race_executor_def AllSettled_executor_def
        Any_executor_def)
next
  case False
  then have "y \<in> set (register (then_of k c) (catch_of k c) 0 ps)"
    using assms by (simp add: executor_of_nonempty)
  from set_register[OF this] show ?thesis by auto
qed

lemma executor_filters:
  "filter (is_invoke_then p) (executor_of k c ps t) = []"
  "filter (is_invoke_catch p) (executor_of k c ps t) = []"
  "filter (\<lambda>x. x = WgDone) (executor_of k c ps t) = []"
  using executor_plain[of _ k c ps t p] by (auto simp: filter_empty_conv)

lemma combinator_balanced:
  assumes "combinator c T ps w = Inr w'" "balanced w"
  shows "balanced w'"
proof -
  from assms(1) have f: "heap w' = heap w @ [\<lparr>then_f = None, catch_f = None, finally_f = None\<rparr>]"
    "events w' = events w"
    "pool w' = pool w @ [executor_of c (length (frames w)) ps (length (heap w))]"
    "wg w' = wg w + 1"
    by (auto elim: combinator_elim)
  show ?thesis using assms(2) by (simp add: balanced_def f executor_filters)
qed

lemma step_balanced:
  assumes "step a w = Inr w'" "balanced w" "well_formed w"
  shows "balanced w'"
proof (cases a)
  case (Sched k)
  then have "sched k w = Inr w'" using assms(1) by simp
  from sched_balanced[OF this assms(2,3)] show ?thesis .
next
  case (CallAll T ps)
  then have "combinator KAll T ps w = Inr w'" using assms by auto
  from combinator_balanced[OF this assms(2)] show ?thesis .
next
  case (CallRace T ps)
  then have "combinator KRace T ps w = Inr w'" using assms by auto
  from combinator_balanced[OF this assms(2)] show ?thesis .
next
  case (CallAllSettled T ps)
  then have "combinator KAllSettled T ps w = Inr w'" using assms by auto
  from combinator_balanced[OF this assms(2)] show ?thesis .
next
  case (CallAny T ps)
  then have "combinator KAny T ps w = Inr w'" using assms by auto
  from combinator_balanced[OF this assms(2)] show ?thesis .
next
  case (ExecFinally p)
  then show ?thesis using assms
    by (auto simp: balanced_def own_def finally_fn_def well_formed_def slots_ok_def
        split: sum.splits if_splits)
qed (use assms in \<open>auto simp: balanced_def own_def exists_def resolve_def reject_def
      NewPromise_def Then_def Catch_def Finally_def Let_def split: sum.splits if_splits\<close>)

lemma balanced_init: "balanced init"
  by (simp add: balanced_def init_def)

lemma run_good:
  "run as init = Inr s \<Longrightarrow> well_formed s \<and> balanced s"
  using run_inv[of "\<lambda>w. well_formed w \<and> balanced w" init as s] step_wf step_balanced wf_init balanced_init
  by blast

lemma launched_le_settles:
  "occ (launched_then p) es + occ (launched_catch p) es \<le> occ (settles p) es"
proof (induction es)
  case Nil then show ?case by simp
next
  case (Cons e es) then show ?case by (cases e) auto
qed

lemma exec_settles:
  "exec k x w = Inr w' \<Longrightarrow>
     \<exists>es. events w' = events w @ es \<and>
        (\<forall>p v b. Resolved p v b \<in> set es \<longrightarrow>
           b = (then_f (heap w ! p) \<noteq> None) \<and>
           (if b then pool w' = pool w @ [[InvokeThen p v, WgDone]] else pool w' = pool w)) \<and>
        (\<forall>p e b. Rejected p e b \<in> set es \<longrightarrow>
           b = (catch_f (heap w ! p) \<noteq> None) \<and>
           (if b then pool w' = pool w @ [[InvokeCatch p e, WgDone]] else pool w' = pool w))"
  by (cases x)
     (auto simp: resolve_def reject_def Then_def Catch_def Let_def
           split: option.splits sum.splits if_splits)

lemma step_settles:
  assumes "step a w = Inr w'"
  shows "settles_by_slot w w'"
proof (cases a)
  case (Sched k)
  then obtain x g where k: "k < length (pool w)"
    and e: "exec k x (w\<lparr>pool := (pool w)[k := g]\<rparr>) = Inr w'"
    using assms by (auto elim: sched_elim)
  let ?w0 = "w\<lparr>pool := (pool w)[k := g]\<rparr>"
  from exec_settles[OF e] obtain es where es: "events w' = events w @ es"
    "\<forall>p v b. Resolved p v b \<in> set es \<longrightarrow>
           b = (then_f (heap ?w0 ! p) \<noteq> None) \<and>
           (if b then pool w' = pool ?w0 @ [[InvokeThen p v, WgDone]] else pool w' = pool ?w0)"
    "\<forall>p e b. Rejected p e b \<in> set es \<longrightarrow>
           b = (catch_f (heap ?w0 ! p) \<noteq> None) \<and>
           (if b then pool w' = pool ?w0 @ [[InvokeCatch p e, WgDone]] else pool w' = pool ?w0)"
    by auto
  have R: "b = (then_f (heap w ! p) \<noteq> None) \<and>
           (if b then length (pool w') = Suc (length (pool w)) \<and>
                      last (pool w') = [InvokeThen p v, WgDone]
            else length (pool w') = length (pool w))"
    if "Resolved p v b \<in> set es" for p v b
    using es(2)[rule_format, OF that] by (cases b) simp_all
  have J: "b = (catch_f (heap w ! p) \<noteq> None) \<and>
           (if b then length (pool w') = Suc (length (pool w)) \<and>
                      last (pool w') = [InvokeCatch p e, WgDone]
            else length (pool w') = length (pool w))"
    if "Rejected p e b \<in> set es" for p e b
    using es(3)[rule_format, OF that] by (cases b) simp_all
  show ?thesis unfolding settles_by_slot_def using es(1) R J by blast
qed (use assms in \<open>auto simp: settles_by_slot_def own_def exists_def resolve_def reject_def
      finally_fn_def NewPromise_def Then_def Catch_def Finally_def Let_def
      elim!: combinator_elim split: sum.splits if_splits\<close>)

text \<open>
  C1, as the code has it. \<open>resolve\<close> and \<open>reject\<close> each test their own slot only. A
  call of \<open>resolve\<close> (of \<open>reject\<close>) made while the slot \<open>then\<close> (\<open>catch\<close>) holds an observer
  launches exactly one goroutine, which calls the observer that the slot holds when it
  runs, and a call made while the slot is nil launches nothing; this holds of every call
  that any step of a run makes. Nothing records that the promise has settled: a second
  call launches a second goroutine. In every state of a run, the calls of the success
  observer of a promise that were made or are still pending are as many as the calls of
  \<open>resolve\<close> that found the slot set, and likewise for the failure observer; so when the
  executor has called \<open>resolve\<close> or \<open>reject\<close> at most once in all, at most one observer
  call has been made for the promise.
\<close>

theorem observer_calls_match_settlements:
  fixes w :: "('a::zero) world"
  shows "(then_f (heap w ! p) \<noteq> None \<longrightarrow>
            pool (resolve p v w) = pool w @ [[InvokeThen p v, WgDone]] \<and>
            events (resolve p v w) = events w @ [Resolved p v True] \<and>
            pool (resolve p v' (resolve p v w)) =
              pool w @ [[InvokeThen p v, WgDone], [InvokeThen p v', WgDone]]) \<and>
         (then_f (heap w ! p) = None \<longrightarrow>
            pool (resolve p v w) = pool w \<and>
            events (resolve p v w) = events w @ [Resolved p v False]) \<and>
         (catch_f (heap w ! p) \<noteq> None \<longrightarrow>
            pool (reject p e w) = pool w @ [[InvokeCatch p e, WgDone]] \<and>
            events (reject p e w) = events w @ [Rejected p e True] \<and>
            pool (reject p e' (reject p e w)) =
              pool w @ [[InvokeCatch p e, WgDone], [InvokeCatch p e', WgDone]]) \<and>
         (catch_f (heap w ! p) = None \<longrightarrow>
            pool (reject p e w) = pool w \<and>
            events (reject p e w) = events w @ [Rejected p e False]) \<and>
         (\<forall>f. then_f (heap w ! p) = Some f \<longrightarrow>
            exec k (InvokeThen p v) w = Inr (push k (body_then f v) (emit (ThenCalled p f v) w))) \<and>
         (\<forall>f. catch_f (heap w ! p) = Some f \<longrightarrow>
            exec k (InvokeCatch p e) w = Inr (push k (body_catch f e) (emit (CatchCalled p f e) w))) \<and>
         (\<forall>a w'. step a w = Inr w' \<longrightarrow> settles_by_slot w w') \<and>
         (\<forall>as s. run as (init :: 'a world) = Inr s \<longrightarrow>
            cnt (is_invoke_then p) (pool s) + occ (is_then_called p) (events s) =
              occ (launched_then p) (events s) \<and>
            cnt (is_invoke_catch p) (pool s) + occ (is_catch_called p) (events s) =
              occ (launched_catch p) (events s) \<and>
            (occ (settles p) (events s) \<le> 1 \<longrightarrow>
               occ (is_then_called p) (events s) + occ (is_catch_called p) (events s) \<le> 1))"
proof -
  have 1: "then_f (heap w ! p) \<noteq> None \<longrightarrow>
            pool (resolve p v w) = pool w @ [[InvokeThen p v, WgDone]] \<and>
            events (resolve p v w) = events w @ [Resolved p v True] \<and>
            pool (resolve p v' (resolve p v w)) =
              pool w @ [[InvokeThen p v, WgDone], [InvokeThen p v', WgDone]]"
    by (simp add: resolve_def)
  have 2: "then_f (heap w ! p) = None \<longrightarrow>
            pool (resolve p v w) = pool w \<and>
            events (resolve p v w) = events w @ [Resolved p v False]"
    by (simp add: resolve_def)
  have 3: "catch_f (heap w ! p) \<noteq> None \<longrightarrow>
            pool (reject p e w) = pool w @ [[InvokeCatch p e, WgDone]] \<and>
            events (reject p e w) = events w @ [Rejected p e True] \<and>
            pool (reject p e' (reject p e w)) =
              pool w @ [[InvokeCatch p e, WgDone], [InvokeCatch p e', WgDone]]"
    by (simp add: reject_def)
  have 4: "catch_f (heap w ! p) = None \<longrightarrow>
            pool (reject p e w) = pool w \<and>
            events (reject p e w) = events w @ [Rejected p e False]"
    by (simp add: reject_def)
  have 5: "\<forall>f. then_f (heap w ! p) = Some f \<longrightarrow>
            exec k (InvokeThen p v) w = Inr (push k (body_then f v) (emit (ThenCalled p f v) w))"
    by simp
  have 6: "\<forall>f. catch_f (heap w ! p) = Some f \<longrightarrow>
            exec k (InvokeCatch p e) w = Inr (push k (body_catch f e) (emit (CatchCalled p f e) w))"
    by simp
  have 7: "\<forall>a w'. step a w = Inr w' \<longrightarrow> settles_by_slot w w'"
    using step_settles by blast
  have 8: "cnt (is_invoke_then p) (pool s) + occ (is_then_called p) (events s) =
              occ (launched_then p) (events s) \<and>
            cnt (is_invoke_catch p) (pool s) + occ (is_catch_called p) (events s) =
              occ (launched_catch p) (events s) \<and>
            (occ (settles p) (events s) \<le> 1 \<longrightarrow>
               occ (is_then_called p) (events s) + occ (is_catch_called p) (events s) \<le> 1)"
    if r: "run as (init :: 'a world) = Inr s" for as s
  proof -
    have b: "balanced s" using run_good[OF r] by simp
    have i: "cnt (is_invoke_then p) (pool s) + occ (is_then_called p) (events s) =
           occ (launched_then p) (events s)"
      and ii: "cnt (is_invoke_catch p) (pool s) + occ (is_catch_called p) (events s) =
           occ (launched_catch p) (events s)"
      using b by (simp_all add: balanced_def)
    show ?thesis using i ii launched_le_settles[of p "events s"] by linarith
  qed
  have 9: "\<forall>as s. run as (init :: 'a world) = Inr s \<longrightarrow>
            cnt (is_invoke_then p) (pool s) + occ (is_then_called p) (events s) =
              occ (launched_then p) (events s) \<and>
            cnt (is_invoke_catch p) (pool s) + occ (is_catch_called p) (events s) =
              occ (launched_catch p) (events s) \<and>
            (occ (settles p) (events s) \<le> 1 \<longrightarrow>
               occ (is_then_called p) (events s) + occ (is_catch_called p) (events s) \<le> 1)"
    using 8 by blast
  show ?thesis by (intro conjI 1 2 3 4 5 6 7 9)
qed

theorem observer_calls_match_settlements_witness:
  "occ (is_then_called 0)
     (events (projr (run [CallNewPromise, CallThen 0 1, ExecResolve 0 (One 5), Sched 1]
        (init :: nat world)))) +
   occ (is_catch_called 0)
     (events (projr (run [CallNewPromise, CallThen 0 1, ExecResolve 0 (One 5), Sched 1]
        (init :: nat world)))) \<le> 1 \<and>
   pool (resolve 0 (One 5) (projr (run [CallNewPromise, CallThen 0 1] (init :: nat world)))) =
     [[], [InvokeThen 0 (One 5), WgDone]] \<and>
   pool (resolve 0 (One 5) (projr (run [CallNewPromise] (init :: nat world)))) = [[]]"
proof -
  let ?r = "run [CallNewPromise, CallThen 0 1, ExecResolve 0 (One 5), Sched 1] (init :: nat world)"
  let ?w1 = "projr (run [CallNewPromise, CallThen 0 1] (init :: nat world))"
  let ?w0 = "projr (run [CallNewPromise] (init :: nat world))"
  have e: "?r = Inr (projr ?r)" by (simp add: run_defs)
  have a: "occ (settles 0) (events (projr ?r)) \<le> 1" by (simp add: run_defs)
  have s1: "then_f (heap ?w1 ! 0) \<noteq> None" "pool ?w1 = [[]]" by (simp_all add: run_defs)
  have s0: "then_f (heap ?w0 ! 0) = None" "pool ?w0 = [[]]" by (simp_all add: run_defs)
  have "occ (is_then_called 0) (events (projr ?r)) +
        occ (is_catch_called 0) (events (projr ?r)) \<le> 1"
    using observer_calls_match_settlements[of ?w1 0] e a by blast
  moreover have "pool (resolve 0 (One 5) ?w1) = [[], [InvokeThen 0 (One 5), WgDone]]"
    using observer_calls_match_settlements[of ?w1 0 "One 5"] s1 by simp
  moreover have "pool (resolve 0 (One 5) ?w0) = [[]]"
    using observer_calls_match_settlements[of ?w0 0 "One 5"] s0 by simp
  ultimately show ?thesis by blast
qed

text \<open>
  C1 as stated fails: the executor calls \<open>resolve\<close> and then \<open>reject\<close> while both
  observers are registered, and both are called.
\<close>

theorem both_observers_called_counterexample:
  "\<not> isl (run [CallNewPromise, CallThen 0 1, CallCatch 0 2, ExecResolve 0 (One 5),
            ExecReject 0 ''e'', Sched 1, Sched 2] (init :: nat world)) \<and>
   ThenCalled 0 (UserThen 1) (One 5) \<in> set (events (projr
      (run [CallNewPromise, CallThen 0 1, CallCatch 0 2, ExecResolve 0 (One 5),
            ExecReject 0 ''e'', Sched 1, Sched 2] (init :: nat world)))) \<and>
   CatchCalled 0 (UserCatch 2) ''e'' \<in> set (events (projr
      (run [CallNewPromise, CallThen 0 1, CallCatch 0 2, ExecResolve 0 (One 5),
            ExecReject 0 ''e'', Sched 1, Sched 2] (init :: nat world))))"
  by (simp add: run_defs)









lemma exec_launch_then:
  "exec k x w = Inr w' \<Longrightarrow> op_ok w x \<Longrightarrow>
   \<exists>es. events w' = events w @ es \<and>
     (\<forall>e\<in>set es. launched_then p e \<longrightarrow> p \<in> targets w)"
  by (cases x)
     (auto simp: resolve_def reject_def Then_def Catch_def Let_def is_kind_def target_in
           split: option.splits sum.splits if_splits)

lemma ctx_targets:
  fixes w w' :: "'a world"
  assumes "ctx w' = ctx w"
  shows "targets w' = targets w"
proof -
  have "grow w w'" "grow w' w" using assms by (auto intro: ctx_grow)
  then show ?thesis using grow_targets[of w w'] grow_targets[of w' w] by blast
qed

lemma step_grow: "step a w = Inr w' \<Longrightarrow>
   length (heap w) \<le> length (heap w') \<and> targets w' \<subseteq> insert (length (heap w)) (targets w)"
proof (cases a)
  case (Sched k)
  assume a: "step a w = Inr w'"
  then obtain x g where e: "exec k x (w\<lparr>pool := (pool w)[k := g]\<rparr>) = Inr w'"
    using Sched by (auto elim: sched_elim)
  from exec_ctx[OF e] have c: "ctx w' = ctx w" by simp
  then have "length (heap w') = length (heap w)" by (simp add: ctx_def)
  then show ?thesis using ctx_targets[OF c] by auto
qed (auto simp: targets_def own_def exists_def resolve_def reject_def finally_fn_def
      NewPromise_def Then_def Catch_def Finally_def Let_def
      elim!: combinator_elim split: sum.splits if_splits)

lemma step_launch_then:
  assumes "step a w = Inr w'" "well_formed w"
  shows "\<exists>es. events w' = events w @ es \<and>
     (\<forall>e\<in>set es. launched_then p e \<longrightarrow> (\<exists>x. a = ExecResolve p x) \<or> p \<in> targets w)"
proof (cases a)
  case (Sched k)
  then obtain x g where k: "k < length (pool w)" "pool w ! k = x # g"
    and e: "exec k x (w\<lparr>pool := (pool w)[k := g]\<rparr>) = Inr w'"
    using assms(1) by (auto elim: sched_elim)
  have "op_ok w x" using assms(2) ops_head[OF k] by (simp add: well_formed_def)
  then have "op_ok (w\<lparr>pool := (pool w)[k := g]\<rparr>) x" by (simp add: ctx_iff(1)[OF ctx_simps(6)])
  from exec_launch_then[OF e this, of p] show ?thesis
    by (auto simp: ctx_targets[OF ctx_simps(6)])
qed (use assms(1) in \<open>auto simp: own_def exists_def resolve_def reject_def finally_fn_def
      NewPromise_def Then_def Catch_def Finally_def Let_def
      elim!: combinator_elim split: sum.splits if_splits\<close>)

lemma step_unlaunched:
  assumes "step a w = Inr w'" "unlaunched p w" "\<forall>x. a \<noteq> ExecResolve p x"
  shows "unlaunched p w'"
proof -
  have w: "well_formed w" "p < length (heap w)" "p \<notin> targets w"
    "occ (launched_then p) (events w) = 0"
    using assms(2) by (simp_all add: unlaunched_def)
  from step_launch_then[OF assms(1) w(1), of p] assms(3) w(3)
  obtain es where es: "events w' = events w @ es" "\<forall>e\<in>set es. \<not> launched_then p e" by blast
  have 1: "occ (launched_then p) (events w') = 0" using es w(4) by (simp add: occ_zero)
  have 2: "p < length (heap w')" "p \<notin> targets w'"
    using step_grow[OF assms(1)] w(2,3) by auto
  show ?thesis using 1 2 step_wf[OF w(1) assms(1)] by (simp add: unlaunched_def)
qed

lemma run_unlaunched:
  "run as w = Inr s \<Longrightarrow> unlaunched p w \<Longrightarrow> \<forall>a\<in>set as. \<forall>x. a \<noteq> ExecResolve p x \<Longrightarrow>
   unlaunched p s"
proof (induction as arbitrary: w)
  case Nil then show ?case by simp
next
  case (Cons a as)
  from Cons.prems(1) obtain w1 where 1: "step a w = Inr w1" "run as w1 = Inr s"
    by (auto split: sum.splits)
  have "unlaunched p w1" using step_unlaunched[OF 1(1) Cons.prems(2)] Cons.prems(3) by simp
  from Cons.IH[OF 1(2) this] Cons.prems(3) show ?case by simp
qed

text \<open>
  C2. \<open>NewPromise\<close>, then \<open>resolve(v)\<close>, then \<open>Then(h)\<close>: the call of \<open>resolve\<close> finds the
  slot \<open>then\<close> nil and launches nothing, so whatever happens next, as long as the executor
  does not call \<open>resolve\<close> again, no observer of the promise is ever called: \<open>v\<close> is
  never delivered to \<open>h\<close>, in every schedule.
\<close>

theorem resolve_before_Then_is_lost:
  assumes "run pre init = Inr w" and "p = length (heap w)"
    and "\<forall>a\<in>set as. \<forall>x. a \<noteq> ExecResolve p x"
    and "run ([CallNewPromise, ExecResolve p v, CallThen p h] @ as) w = Inr s"
  shows "\<forall>f x. ThenCalled p f x \<notin> set (events s)"
proof -
  have g: "well_formed w" using run_good[OF assms(1)] by simp
  let ?w1 = "snd (NewPromise (\<lambda>p. []) w)"
  let ?w2 = "resolve p v ?w1"
  let ?w3 = "snd (Then p (UserThen h) ?w2)"
  have nc: "p \<notin> targets w"
    using g assms(2) targets_lt[of w p] by (auto simp: well_formed_def)
  have s1: "step CallNewPromise w = Inr ?w1" by simp
  have h1: "length (heap ?w1) = Suc p" "frames ?w1 = frames w"
    by (simp_all add: assms(2) NewPromise_def Let_def)
  have "own p ?w1 = Inr ()" using nc h1 by (auto simp: own_def targets_def)
  then have s2: "step (ExecResolve p v) ?w1 = Inr ?w2" by simp
  have "length (heap ?w2) = Suc p" using h1 by (simp add: resolve_def)
  then have s3: "step (CallThen p h) ?w2 = Inr ?w3" by (simp add: exists_def)
  have r3: "run as ?w3 = Inr s"
    using assms(4) by (simp only: append_Cons append_Nil run.simps s1 s2 s3 sum.case)
  have w3: "well_formed ?w3" using step_wf[OF step_wf[OF step_wf[OF g s1] s2] s3] .
  have ev0: "\<forall>e\<in>set (events w). \<not> launched_then p e"
  proof
    fix e assume "e \<in> set (events w)"
    then have "event_ok w e" using g by (simp add: well_formed_def)
    then show "\<not> launched_then p e" unfolding assms(2) by (cases e) auto
  qed
  have ev: "events ?w3 = events w @ [Resolved p v False]"
    unfolding assms(2) by (simp add: Then_def resolve_def NewPromise_def Let_def)
  have u: "unlaunched p ?w3"
    unfolding unlaunched_def using w3 ev0 nc
    by (simp add: ev occ_zero)
       (auto simp: assms(2) targets_def Then_def resolve_def NewPromise_def Let_def)
  have us: "unlaunched p s" using run_unlaunched[OF r3 u assms(3)] .
  have "run (pre @ [CallNewPromise, ExecResolve p v, CallThen p h] @ as) init = Inr s"
    using assms(1,4) by (simp add: run_append)
  from run_good[OF this] have "balanced s" by simp
  then have "cnt (is_invoke_then p) (pool s) + occ (is_then_called p) (events s) =
          occ (launched_then p) (events s)" unfolding balanced_def by blast
  then have "occ (is_then_called p) (events s) = 0"
    using us by (simp add: unlaunched_def)
  then show ?thesis by (force simp: occ_zero)
qed

theorem resolve_before_Then_is_lost_witness:
  "ThenCalled 0 (UserThen 1) (One 5) \<notin> set (events (projr
     (run [CallNewPromise, ExecResolve 0 (One 5), CallThen 0 1, CallCatch 0 2]
        (init :: nat world))))"
proof -
  let ?r = "run ([CallNewPromise, ExecResolve 0 (One 5), CallThen 0 1] @ [CallCatch 0 2])
     (init :: nat world)"
  have 1: "run [] (init :: nat world) = Inr init" by simp
  have 2: "0 = length (heap (init :: nat world))" by (simp add: init_def)
  have 3: "\<forall>a\<in>set [CallCatch 0 2 :: nat action]. \<forall>x. a \<noteq> ExecResolve 0 x" by simp
  have 4: "?r = Inr (projr ?r)" by (simp add: run_defs)
  from resolve_before_Then_is_lost[OF 1 2 3 4] show ?thesis by simp
qed






lemma then_mentions_simps [simp]:
  "then_mentions (UserThen g) = {g}"
  "then_mentions (WrapThen f g) = insert g (then_mentions f)"
  "then_mentions (OnlyFinallyThen g) = {g}"
  by (auto simp: then_mentions_def)

lemma catch_mentions_simps [simp]:
  "catch_mentions (UserCatch g) = {g}"
  "catch_mentions (WrapCatch f g) = insert g (catch_mentions f)"
  "catch_mentions (OnlyFinallyCatch g) = {g}"
  by (auto simp: catch_mentions_def)


















end
